theory Spec2Isabelle
  imports Main "HOL-Library.Sublist" "HOL-Library.AList"
begin

section \<open>Strings\<close>

text \<open>
  A Go string is a sequence of bytes, here a \<open>string\<close> (list of 8-bit \<open>char\<close>).
  The functions of package \<open>strings\<close> that \<open>parser.go\<close> calls are modelled on bytes.
\<close>

text \<open>
  \<open>unicode.IsSpace\<close>, as the UTF-8 encodings of the runes it accepts: the six ASCII
  ones, U+0085, U+00A0, U+1680, U+2000 to U+200A, U+2028, U+2029, U+202F, U+205F, U+3000.
\<close>

definition whiteSpace :: "string list" where
  "whiteSpace =
    [[CHR 0x09], [CHR 0x0A], [CHR 0x0B], [CHR 0x0C], [CHR 0x0D], [CHR 0x20],
     [CHR 0xC2, CHR 0x85], [CHR 0xC2, CHR 0xA0],
     [CHR 0xE1, CHR 0x9A, CHR 0x80],
     [CHR 0xE2, CHR 0x80, CHR 0x80], [CHR 0xE2, CHR 0x80, CHR 0x81],
     [CHR 0xE2, CHR 0x80, CHR 0x82], [CHR 0xE2, CHR 0x80, CHR 0x83],
     [CHR 0xE2, CHR 0x80, CHR 0x84], [CHR 0xE2, CHR 0x80, CHR 0x85],
     [CHR 0xE2, CHR 0x80, CHR 0x86], [CHR 0xE2, CHR 0x80, CHR 0x87],
     [CHR 0xE2, CHR 0x80, CHR 0x88], [CHR 0xE2, CHR 0x80, CHR 0x89],
     [CHR 0xE2, CHR 0x80, CHR 0x8A],
     [CHR 0xE2, CHR 0x80, CHR 0xA8], [CHR 0xE2, CHR 0x80, CHR 0xA9],
     [CHR 0xE2, CHR 0x80, CHR 0xAF],
     [CHR 0xE2, CHR 0x81, CHR 0x9F],
     [CHR 0xE3, CHR 0x80, CHR 0x80]]"

text \<open>The encoded white-space rune that a string starts with, or ends with.\<close>

definition leadingSpace :: "string \<Rightarrow> string option" where
  "leadingSpace s = List.find (\<lambda>t. prefix t s) whiteSpace"

definition trailingSpace :: "string \<Rightarrow> string option" where
  "trailingSpace s = List.find (\<lambda>t. suffix t s) whiteSpace"

lemma whiteSpace_nonempty: "t \<in> set whiteSpace \<Longrightarrow> t \<noteq> []"
  by (auto simp: whiteSpace_def)

lemma find_Some_mem: "List.find P xs = Some x \<Longrightarrow> x \<in> set xs \<and> P x"
  by (induction xs) (auto split: if_splits)

lemma leadingSpace_Some: "leadingSpace s = Some t \<Longrightarrow> t \<noteq> [] \<and> prefix t s"
  unfolding leadingSpace_def
  using find_Some_mem [of "\<lambda>t. prefix t s" whiteSpace t] whiteSpace_nonempty [of t]
  by simp

lemma trailingSpace_Some: "trailingSpace s = Some t \<Longrightarrow> t \<noteq> [] \<and> suffix t s"
  unfolding trailingSpace_def
  using find_Some_mem [of "\<lambda>t. suffix t s" whiteSpace t] whiteSpace_nonempty [of t]
  by simp

text \<open>\<open>strings.TrimLeftFunc(s, unicode.IsSpace)\<close> and \<open>strings.TrimRightFunc(s, unicode.IsSpace)\<close>.\<close>

function trimLeft :: "string \<Rightarrow> string" where
  "trimLeft s =
     (case leadingSpace s of None \<Rightarrow> s | Some t \<Rightarrow> trimLeft (drop (length t) s))"
  by pat_completeness auto
termination
proof (relation "measure length")
  fix s t assume "leadingSpace s = Some t"
  then have "t \<noteq> []" "prefix t s" using leadingSpace_Some by auto
  then show "(drop (length t) s, s) \<in> measure length"
    by (cases s) (auto simp: prefix_def)
qed simp

function trimRight :: "string \<Rightarrow> string" where
  "trimRight s =
     (case trailingSpace s of None \<Rightarrow> s
      | Some t \<Rightarrow> trimRight (take (length s - length t) s))"
  by pat_completeness auto
termination
proof (relation "measure length")
  fix s t assume "trailingSpace s = Some t"
  then have "t \<noteq> []" "suffix t s" using trailingSpace_Some by auto
  then show "(take (length s - length t) s, s) \<in> measure length"
    by (cases s) (auto simp: suffix_def)
qed simp

declare trimLeft.simps [simp del] trimRight.simps [simp del]

text \<open>\<open>strings.TrimSpace\<close>: white space is removed from the left, then from the right.\<close>

definition TrimSpace :: "string \<Rightarrow> string" where
  "TrimSpace s = trimRight (trimLeft s)"

text \<open>\<open>strings.HasPrefix\<close> and \<open>strings.TrimPrefix\<close>.\<close>

definition HasPrefix :: "string \<Rightarrow> string \<Rightarrow> bool" where
  "HasPrefix s p = prefix p s"

definition TrimPrefix :: "string \<Rightarrow> string \<Rightarrow> string" where
  "TrimPrefix s p = (if HasPrefix s p then drop (length p) s else s)"

text \<open>
  \<open>strings.Index\<close> and \<open>strings.LastIndex\<close> for a separator of one byte; \<open>None\<close> is
  Go's \<open>-1\<close>.
\<close>

fun Index :: "string \<Rightarrow> char \<Rightarrow> nat option" where
  "Index [] c = None"
| "Index (x # xs) c = (if x = c then Some 0 else map_option Suc (Index xs c))"

fun LastIndex :: "string \<Rightarrow> char \<Rightarrow> nat option" where
  "LastIndex [] c = None"
| "LastIndex (x # xs) c =
     (case LastIndex xs c of Some i \<Rightarrow> Some (Suc i)
      | None \<Rightarrow> if x = c then Some 0 else None)"

section \<open>Regular expressions\<close>

text \<open>
  The fragment of Go's \<open>regexp\<close> syntax that \<open>NewParser\<close> uses. Every repetition in the
  three patterns is over a single character class. On bytes: \<open>.\<close> is any byte but
  newline, \<open>[^x]\<close> any byte but \<open>x\<close>, \<open>\s\<close> is \<open>[\t\n\f\r ]\<close>, \<open>\S\<close> its complement.
  Go matches UTF-8 runes; the literals of the three patterns are ASCII, each class either
  holds ASCII characters only or accepts every rune that is not ASCII, and every group
  begins and ends next to an ASCII character or an end of the text, so that matching
  byte by byte finds the same match and the same group texts.
\<close>

datatype cclass = AnyChar | NotChar char | Space | NonSpace | Digit

fun cc :: "cclass \<Rightarrow> char \<Rightarrow> bool" where
  "cc AnyChar c = (c \<noteq> CHR 0x0A)"
| "cc (NotChar x) c = (c \<noteq> x)"
| "cc Space c = (c \<in> set [CHR 0x09, CHR 0x0A, CHR 0x0C, CHR 0x0D, CHR 0x20])"
| "cc NonSpace c = (c \<notin> set [CHR 0x09, CHR 0x0A, CHR 0x0C, CHR 0x0D, CHR 0x20])"
| "cc Digit c = (c \<in> set ''0123456789'')"

datatype regex =
    Bol
  | Eol
  | Lit string
  | One cclass
  | Star cclass
  | Plus cclass
  | Cat regex regex
  | Alt regex regex
  | Grp nat regex

type_synonym caps = "nat \<rightharpoonup> string"

text \<open>
  Matching by backtracking. A result is the position after the match, the rest of the
  text and the captures; the results come in the order of preference of Go's
  leftmost-first semantics: a greedy repetition offers its longest match first, an
  alternation its left branch first.
\<close>

fun star :: "cclass \<Rightarrow> nat \<Rightarrow> string \<Rightarrow> (nat \<times> string) list" where
  "star k p [] = [(p, [])]"
| "star k p (x # xs) = (if cc k x then star k (Suc p) xs else []) @ [(p, x # xs)]"

fun run :: "regex \<Rightarrow> nat \<Rightarrow> string \<Rightarrow> caps \<Rightarrow> (nat \<times> string \<times> caps) list" where
  "run Bol p s c = (if p = 0 then [(p, s, c)] else [])"
| "run Eol p s c = (if s = [] then [(p, s, c)] else [])"
| "run (Lit t) p s c =
     (if prefix t s then [(p + length t, drop (length t) s, c)] else [])"
| "run (One k) p s c =
     (case s of [] \<Rightarrow> [] | x # xs \<Rightarrow> if cc k x then [(Suc p, xs, c)] else [])"
| "run (Star k) p s c = map (\<lambda>(p', s'). (p', s', c)) (star k p s)"
| "run (Plus k) p s c =
     (case s of [] \<Rightarrow> []
      | x # xs \<Rightarrow> if cc k x then map (\<lambda>(p', s'). (p', s', c)) (star k (Suc p) xs) else [])"
| "run (Cat a b) p s c = concat (map (\<lambda>(p', s', c'). run b p' s' c') (run a p s c))"
| "run (Alt a b) p s c = run a p s c @ run b p s c"
| "run (Grp n a) p s c =
     map (\<lambda>(p', s', c'). (p', s', c'(n \<mapsto> take (p' - p) s))) (run a p s c)"

text \<open>The leftmost match: the start positions are tried from left to right.\<close>

fun search :: "regex \<Rightarrow> nat \<Rightarrow> string \<Rightarrow> (nat \<times> nat \<times> caps) option" where
  "search r p [] = (case run r p [] Map.empty of [] \<Rightarrow> None | (e, _, c) # _ \<Rightarrow> Some (p, e, c))"
| "search r p (x # xs) =
     (case run r p (x # xs) Map.empty of [] \<Rightarrow> search r (Suc p) xs
      | (e, _, c) # _ \<Rightarrow> Some (p, e, c))"

fun ngroups :: "regex \<Rightarrow> nat" where
  "ngroups (Cat a b) = ngroups a + ngroups b"
| "ngroups (Alt a b) = ngroups a + ngroups b"
| "ngroups (Grp n a) = Suc (ngroups a)"
| "ngroups _ = 0"

text \<open>
  \<open>(*Regexp).FindStringSubmatch\<close>: the nil slice (here \<open>[]\<close>) when there is no match,
  else the matched text followed by the text of every group, empty for a group that
  took no part. \<open>(*Regexp).MatchString\<close> reports whether there is a match.
\<close>

definition FindStringSubmatch :: "regex \<Rightarrow> string \<Rightarrow> string list" where
  "FindStringSubmatch r s =
     (case search r 0 s of None \<Rightarrow> []
      | Some (b, e, c) \<Rightarrow>
          take (e - b) (drop b s) #
          map (\<lambda>i. case c i of None \<Rightarrow> [] | Some g \<Rightarrow> g) [1..<Suc (ngroups r)])"

definition MatchString :: "regex \<Rightarrow> string \<Rightarrow> bool" where
  "MatchString r s = (search r 0 s \<noteq> None)"

fun cat :: "regex list \<Rightarrow> regex" where
  "cat [] = Lit []"
| "cat [r] = r"
| "cat (r # rs) = Cat r (cat rs)"

section \<open>The parser\<close>

text \<open>
  \<open>type OSDistro int\<close> with the constants numbered by \<open>iota\<close>. The type admits every
  integer, so it is kept as one; only equality is used on it.
\<close>

type_synonym OSDistro = int

definition DistroUnknown :: OSDistro where "DistroUnknown = 0"
definition DistroUbuntu :: OSDistro where "DistroUbuntu = 1"
definition DistroAzureLinux :: OSDistro where "DistroAzureLinux = 2"
definition DistroMariner :: OSDistro where "DistroMariner = 3"

record OSPackage =
  Name :: string
  Version :: string

record ContainerImage =
  imgName :: string

record OSRelease =
  relName :: string
  relVersionID :: string
  relVersion :: string
  relPrettyName :: string
  relID :: string
  relDistro :: OSDistro

text \<open>The three patterns compiled by \<open>NewParser\<close>.\<close>

text \<open>\<^verbatim>\<open>^([^/]+)/.*,now\s+(\S+)\s+\S+\s+\[.*\]\<close>\<close>

definition ubuntuRegex :: regex where
  "ubuntuRegex =
     cat [Bol, Grp 1 (Plus (NotChar CHR ''/'')), Lit ''/'', Star AnyChar, Lit '',now'',
          Plus Space, Grp 2 (Plus NonSpace), Plus Space, Plus NonSpace, Plus Space,
          Lit ''['', Star AnyChar, Lit '']'']"

text \<open>\<^verbatim>\<open>^(.+)-([^-]+\.(azl3|cm2)\.(x86_64|noarch))$\<close>\<close>

definition rpmRegex :: regex where
  "rpmRegex =
     cat [Bol, Grp 1 (Plus AnyChar), Lit ''-'',
          Grp 2 (cat [Plus (NotChar CHR ''-''), Lit ''.'',
                      Grp 3 (Alt (Lit ''azl3'') (Lit ''cm2'')), Lit ''.'',
                      Grp 4 (Alt (Lit ''x86_64'') (Lit ''noarch''))]),
          Eol]"

text \<open>\<^verbatim>\<open>^(.+)-([0-9].*)$\<close>\<close>

definition nameVersionRpm :: regex where
  "nameVersionRpm =
     cat [Bol, Grp 1 (Plus AnyChar), Lit ''-'', Grp 2 (cat [One Digit, Star AnyChar]), Eol]"

text \<open>
  \<open>parsePackageLine\<close>: \<open>None\<close> is the nil pointer. An index into \<open>matches\<close> is read
  only after the length check, as in the source.
\<close>

definition parsePackageLine :: "string \<Rightarrow> OSPackage option" where
  "parsePackageLine line =
     (if line = [] then None
      else
        let matches = FindStringSubmatch ubuntuRegex line in
        if length matches \<ge> 3
        then Some \<lparr>Name = matches ! 1, Version = matches ! 2\<rparr>
        else
          let matches = FindStringSubmatch rpmRegex line in
          if length matches \<ge> 3
          then
            let namePart = matches ! 1;
                versionPart = matches ! 2;
                releaseVersion =
                  (case LastIndex versionPart CHR ''.'' of
                     None \<Rightarrow> versionPart
                   | Some idx \<Rightarrow>
                       let arch = drop (idx + 1) versionPart in
                       if arch = ''x86_64'' \<or> arch = ''noarch''
                       then take idx versionPart else versionPart);
                nameVersionMatches = FindStringSubmatch nameVersionRpm namePart
            in
              if length nameVersionMatches \<ge> 3
              then Some \<lparr>Name = nameVersionMatches ! 1,
                         Version = nameVersionMatches ! 2 @ ''-'' @ releaseVersion\<rparr>
              else Some \<lparr>Name = namePart, Version = releaseVersion\<rparr>
          else None)"

definition isUbuntuPackageFormat :: "string \<Rightarrow> bool" where
  "isUbuntuPackageFormat line = MatchString ubuntuRegex line"

definition isRPMPackageFormat :: "string \<Rightarrow> bool" where
  "isRPMPackageFormat line = MatchString rpmRegex line"

text \<open>
  \<open>osReleaseData\<close> is a Go map from string to string, here an association list with
  distinct keys: \<open>len(m) > 0\<close> is \<open>m \<noteq> []\<close>, and reading a missing key gives the
  empty string.
\<close>

type_synonym strmap = "(string \<times> string) list"

definition mapGet :: "strmap \<Rightarrow> string \<Rightarrow> string" where
  "mapGet m k = (case map_of m k of None \<Rightarrow> [] | Some v \<Rightarrow> v)"

definition mapSet :: "strmap \<Rightarrow> string \<Rightarrow> string \<Rightarrow> strmap" where
  "mapSet m k v = AList.update k v m"

definition parseOSReleaseLine :: "string \<Rightarrow> strmap \<Rightarrow> strmap" where
  "parseOSReleaseLine line data =
     (if line = [] then data
      else
        case Index line CHR ''='' of
          None \<Rightarrow> data
        | Some idx \<Rightarrow>
            if idx > 0
            then
              let key = TrimSpace (take idx line);
                  value = TrimSpace (drop (idx + 1) line);
                  value = (if length value \<ge> 2 \<and> value ! 0 = CHR 0x22
                              \<and> value ! (length value - 1) = CHR 0x22
                           then take (length value - 2) (drop 1 value) else value)
              in
                if key \<in> set [''NAME'', ''VERSION_ID'', ''VERSION'', ''PRETTY_NAME'', ''ID'']
                then mapSet data key value else data
            else data)"

definition parseContainerImageLine :: "string \<Rightarrow> ContainerImage option" where
  "parseContainerImageLine line =
     (if line = [] then None
      else if \<not> HasPrefix line ''  - '' then None
      else
        let imageName = TrimSpace (TrimPrefix line ''  - '') in
        if imageName = [] then None else Some \<lparr>imgName = imageName\<rparr>)"

definition detectDistroFromID :: "string \<Rightarrow> OSDistro" where
  "detectDistroFromID ident =
     (if ident = ''ubuntu'' \<or> ident = ''debian'' then DistroUbuntu
      else if ident = ''azurelinux'' then DistroAzureLinux
      else if ident = ''mariner'' then DistroMariner
      else DistroUnknown)"

record ParseResult =
  Packages :: "OSPackage list"
  ContainerImages :: "ContainerImage list"
  OSRelease :: "OSRelease option"

text \<open>
  The local variables of \<open>Parse\<close> that its loop reads and writes. The two counters are
  Go \<open>int\<close>s that are only ever incremented, once per line at most; they are natural
  numbers here.
\<close>

record scan =
  packages :: "OSPackage list"
  containerImages :: "ContainerImage list"
  inPackageSection :: bool
  inOSReleaseSection :: bool
  inContainerImagesSection :: bool
  osReleaseData :: strmap
  ubuntuPackageCount :: nat
  rpmPackageCount :: nat

definition initScan :: scan where
  "initScan =
     \<lparr>packages = [], containerImages = [],
      inPackageSection = False, inOSReleaseSection = False,
      inContainerImagesSection = False,
      osReleaseData = [], ubuntuPackageCount = 0, rpmPackageCount = 0\<rparr>"

text \<open>The part of the loop body after the \<open>switch\<close>: the line goes to the classifier of
  the active section.\<close>

definition dispatch :: "scan \<Rightarrow> string \<Rightarrow> string \<Rightarrow> scan" where
  "dispatch st line trimmedLine =
     (if inPackageSection st then
        (case parsePackageLine trimmedLine of
           None \<Rightarrow> st
         | Some pkg \<Rightarrow>
             let st' = st\<lparr>packages := packages st @ [pkg]\<rparr> in
             if isUbuntuPackageFormat trimmedLine
             then st'\<lparr>ubuntuPackageCount := ubuntuPackageCount st' + 1\<rparr>
             else if isRPMPackageFormat trimmedLine
             then st'\<lparr>rpmPackageCount := rpmPackageCount st' + 1\<rparr>
             else st')
      else if inOSReleaseSection st then
        st\<lparr>osReleaseData := parseOSReleaseLine trimmedLine (osReleaseData st)\<rparr>
      else if inContainerImagesSection st then
        (if HasPrefix line ''  - '' then
           (case parseContainerImageLine line of
              None \<Rightarrow> st
            | Some img \<Rightarrow> st\<lparr>containerImages := containerImages st @ [img]\<rparr>)
         else if trimmedLine \<noteq> [] then st\<lparr>inContainerImagesSection := False\<rparr>
         else st)
      else st)"

text \<open>One iteration of the loop of \<open>Parse\<close>, on the line the scanner delivers.\<close>

definition step :: "scan \<Rightarrow> string \<Rightarrow> scan" where
  "step st line =
     (let trimmedLine = TrimSpace line in
      if trimmedLine = ''=== Installed Packages Begin'' then
        st\<lparr>inPackageSection := True, inOSReleaseSection := False,
           inContainerImagesSection := False\<rparr>
      else if trimmedLine = ''=== Installed Packages End'' then
        st\<lparr>inPackageSection := False\<rparr>
      else if trimmedLine = ''=== os-release Begin'' then
        st\<lparr>inOSReleaseSection := True, inPackageSection := False,
           inContainerImagesSection := False\<rparr>
      else if trimmedLine = ''=== os-release End'' then
        st\<lparr>inOSReleaseSection := False\<rparr>
      else if trimmedLine = ''containerd images pre-pulled:'' then
        st\<lparr>inContainerImagesSection := True, inPackageSection := False,
           inOSReleaseSection := False\<rparr>
      else if (trimmedLine = [] \<or> trimmedLine = ''Listing...'')
              \<and> (inPackageSection st \<or> inOSReleaseSection st \<or> inContainerImagesSection st)
      then st
      else dispatch st line trimmedLine)"

definition scanLines :: "scan \<Rightarrow> string list \<Rightarrow> scan" where
  "scanLines st ls = foldl step st ls"

text \<open>The distribution that \<open>Parse\<close> computes after the loop (\<open>detectedDistro\<close>).\<close>

definition detectedDistro :: "scan \<Rightarrow> OSDistro" where
  "detectedDistro st =
     (let d = (if osReleaseData st \<noteq> []
               then detectDistroFromID (mapGet (osReleaseData st) ''ID'')
               else DistroUnknown)
      in
        if d = DistroUnknown then
          (if rpmPackageCount st > ubuntuPackageCount st then DistroAzureLinux
           else if ubuntuPackageCount st > rpmPackageCount st then DistroUbuntu
           else d)
        else d)"

datatype error = ErrNilReader | ErrReading string | ErrNoPackageSection

text \<open>The end of \<open>Parse\<close>, after the scanner reported no error.\<close>

definition finish :: "scan \<Rightarrow> ParseResult option \<times> error option" where
  "finish st =
     (let result =
            \<lparr>Packages = packages st, ContainerImages = containerImages st,
             OSRelease =
               (if osReleaseData st \<noteq> [] then
                  Some \<lparr>relName = mapGet (osReleaseData st) ''NAME'',
                        relVersionID = mapGet (osReleaseData st) ''VERSION_ID'',
                        relVersion = mapGet (osReleaseData st) ''VERSION'',
                        relPrettyName = mapGet (osReleaseData st) ''PRETTY_NAME'',
                        relID = mapGet (osReleaseData st) ''ID'',
                        relDistro = detectedDistro st\<rparr>
                else None)\<rparr>
      in
        if Packages result = [] \<and> ContainerImages result = [] \<and> OSRelease result = None
        then (Some result, Some ErrNoPackageSection)
        else (Some result, None))"

text \<open>
  The \<open>io.Reader\<close> as \<open>bufio.Scanner\<close> presents it to \<open>Parse\<close>: the lines that
  \<open>scanner.Scan\<close> delivers before it stops, and the error \<open>scanner.Err()\<close> it stopped
  with, if any (a failed read, or a line longer than the buffer). \<open>None\<close> is the nil reader.
  \<open>Parse\<close> returns a pair of a result pointer and an error, both possibly nil.
\<close>

datatype reader = Reader "string list" "string option"

fun Parse :: "reader option \<Rightarrow> ParseResult option \<times> error option" where
  "Parse None = (None, Some ErrNilReader)"
| "Parse (Some (Reader ls err)) =
     (let st = scanLines initScan ls in
      case err of
        Some e \<Rightarrow> (None, Some (ErrReading e))
      | None \<Rightarrow> finish st)"

section \<open>The fix-version decision\<close>

text \<open>
  \<open>isPackageFixed\<close> of \<open>main.go\<close> calls the packages \<open>go-deb-version\<close> and
  \<open>go-rpm-version\<close>, which are not part of the repository. Their functions are
  parameters here: \<open>debNewVersion\<close> parses or fails with a message, \<open>rpmNewVersion\<close>
  always returns a version, and each \<open>Compare\<close> returns a negative number, zero or a
  positive number.
\<close>

record ('d, 'r) versionLib =
  debNewVersion :: "string \<Rightarrow> string + 'd"
  debCompare :: "'d \<Rightarrow> 'd \<Rightarrow> int"
  rpmNewVersion :: "string \<Rightarrow> 'r"
  rpmCompare :: "'r \<Rightarrow> 'r \<Rightarrow> int"

definition isPackageFixed ::
  "('d, 'r) versionLib \<Rightarrow> string \<Rightarrow> string \<Rightarrow> OSDistro \<Rightarrow> bool" where
  "isPackageFixed lib pkgVersion fixedVersion distro =
     (if fixedVersion = [] then False
      else if distro = DistroUbuntu then
        (case debNewVersion lib pkgVersion of
           Inl err \<Rightarrow> False
         | Inr pkgVer \<Rightarrow>
             (case debNewVersion lib fixedVersion of
                Inl err \<Rightarrow> False
              | Inr fixedVer \<Rightarrow> debCompare lib pkgVer fixedVer \<ge> 0))
      else if distro = DistroAzureLinux \<or> distro = DistroMariner then
        rpmCompare lib (rpmNewVersion lib pkgVersion) (rpmNewVersion lib fixedVersion) \<ge> 0
      else False)"

text \<open>The five marker lines that the \<open>switch\<close> of \<open>Parse\<close> recognizes.\<close>

definition sectionMarkers :: "string list" where
  "sectionMarkers =
     [''=== Installed Packages Begin'', ''=== Installed Packages End'',
      ''=== os-release Begin'', ''=== os-release End'', ''containerd images pre-pulled:'']"

text \<open>
  The package that the first and second capture groups of the APT pattern give on the
  trimmed line.
\<close>

definition aptPackage :: "string \<Rightarrow> OSPackage" where
  "aptPackage line =
     \<lparr>Name = FindStringSubmatch ubuntuRegex (TrimSpace line) ! 1,
      Version = FindStringSubmatch ubuntuRegex (TrimSpace line) ! 2\<rparr>"

text \<open>
  The split of the name part of an RPM line in the words of the specification, for
  comparison with what \<open>parsePackageLine\<close> computes with \<open>nameVersionRpm\<close>: the
  boundaries are the positions of the name part, other than its first, where a hyphen is
  followed by a digit, and the name part is split at the last boundary into the name and
  the upstream version.
\<close>

definition versionBoundaries :: "string \<Rightarrow> nat list" where
  "versionBoundaries namePart =
     filter (\<lambda>i. namePart ! i = CHR ''-'' \<and> cc Digit (namePart ! Suc i))
       [1..<length namePart - 1]"

definition splitNameVersion :: "string \<Rightarrow> (string \<times> string) option" where
  "splitNameVersion namePart =
     (if versionBoundaries namePart = [] then None
      else
        let i = last (versionBoundaries namePart) in
        Some (take i namePart, drop (Suc i) namePart))"

text \<open>
  An instance of the two version packages for running \<open>isPackageFixed\<close> on concrete
  inputs: a version is the length of its string, and the Debian parser rejects the empty
  string and strings with a blank.
\<close>

definition lengthLib :: "(nat, nat) versionLib" where
  "lengthLib =
     \<lparr>debNewVersion = (\<lambda>s. if s = [] \<or> CHR '' '' \<in> set s then Inl ''invalid'' else Inr (length s)),
      debCompare = (\<lambda>a b. int a - int b),
      rpmNewVersion = length,
      rpmCompare = (\<lambda>a b. int a - int b)\<rparr>"

text \<open>The number of section flags that are set.\<close>

definition activeSections :: "scan \<Rightarrow> nat" where
  "activeSections st =
     (if inPackageSection st then 1 else 0) + (if inOSReleaseSection st then 1 else 0)
     + (if inContainerImagesSection st then 1 else 0)"

section \<open>Properties of the fix-version decision\<close>

text \<open>
  C5. \<open>isPackageFixed\<close> answers "not fixed" whenever the fixed version is the empty
  string, or the distribution is none of Ubuntu/Debian, AzureLinux and Mariner (Unknown
  or any other integer), or the distribution is Ubuntu/Debian and the Debian parser
  rejects the installed or the fixed version.
\<close>

theorem isPackageFixed_not_fixed:
  assumes "fixedVersion = []
           \<or> distro \<notin> {DistroUbuntu, DistroAzureLinux, DistroMariner}
           \<or> (distro = DistroUbuntu
               \<and> (isl (debNewVersion lib pkgVersion) \<or> isl (debNewVersion lib fixedVersion)))"
  shows "\<not> isPackageFixed lib pkgVersion fixedVersion distro"
  using assms
  by (auto simp: isPackageFixed_def DistroUbuntu_def DistroAzureLinux_def DistroMariner_def
           split: sum.splits)

theorem isPackageFixed_not_fixed_witness:
  "\<not> isPackageFixed lengthLib ''1.2.3'' [] DistroUbuntu
   \<and> \<not> isPackageFixed lengthLib ''1.2.3'' ''1.2.4'' DistroUnknown
   \<and> \<not> isPackageFixed lengthLib ''1.2.3'' ''1.2.4'' 7
   \<and> isl (debNewVersion lengthLib ''1 2'')
   \<and> \<not> isPackageFixed lengthLib ''1.2.3'' ''1 2'' DistroUbuntu
   \<and> \<not> isPackageFixed lengthLib ''1 2'' ''1.2'' DistroUbuntu"
proof -
  have bad: "isl (debNewVersion lengthLib ''1 2'')"
    by (simp add: lengthLib_def)
  have other: "DistroUnknown \<notin> {DistroUbuntu, DistroAzureLinux, DistroMariner}"
    "(7::int) \<notin> {DistroUbuntu, DistroAzureLinux, DistroMariner}"
    by (simp_all add: DistroUnknown_def DistroUbuntu_def DistroAzureLinux_def DistroMariner_def)
  show ?thesis
    using bad other
      isPackageFixed_not_fixed [of "[]" DistroUbuntu lengthLib "''1.2.3''"]
      isPackageFixed_not_fixed [of "''1.2.4''" DistroUnknown lengthLib "''1.2.3''"]
      isPackageFixed_not_fixed [of "''1.2.4''" 7 lengthLib "''1.2.3''"]
      isPackageFixed_not_fixed [of "''1 2''" DistroUbuntu lengthLib "''1.2.3''"]
      isPackageFixed_not_fixed [of "''1.2''" DistroUbuntu lengthLib "''1 2''"]
    by simp
qed

text \<open>
  C4. For a non-empty fixed version: on Ubuntu/Debian, when the Debian parser accepts
  both strings, the answer is "fixed" exactly when the comparison of the installed with
  the fixed version is not negative (installed \<open>\<ge>\<close> fixed in the Debian order); on
  AzureLinux and Mariner it is "fixed" exactly when the RPM comparison of the two parsed
  versions is not negative.
\<close>

theorem isPackageFixed_compares:
  assumes "fixedVersion \<noteq> []"
  shows "(distro = DistroUbuntu \<and> debNewVersion lib pkgVersion = Inr a
            \<and> debNewVersion lib fixedVersion = Inr b
          \<longrightarrow> isPackageFixed lib pkgVersion fixedVersion distro = (debCompare lib a b \<ge> 0))
       \<and> (distro = DistroAzureLinux \<or> distro = DistroMariner
          \<longrightarrow> isPackageFixed lib pkgVersion fixedVersion distro
              = (rpmCompare lib (rpmNewVersion lib pkgVersion) (rpmNewVersion lib fixedVersion) \<ge> 0))"
  using assms
  by (auto simp: isPackageFixed_def DistroUbuntu_def DistroAzureLinux_def DistroMariner_def)

theorem isPackageFixed_compares_witness:
  "''1.2.3-4'' \<noteq> []
   \<and> debNewVersion lengthLib ''1.2.3-45'' = Inr 8 \<and> debNewVersion lengthLib ''1.2.3-4'' = Inr 7
   \<and> isPackageFixed lengthLib ''1.2.3-45'' ''1.2.3-4'' DistroUbuntu
   \<and> \<not> isPackageFixed lengthLib ''1.2.3-4'' ''1.2.3-45'' DistroUbuntu
   \<and> isPackageFixed lengthLib ''1.2.3-45'' ''1.2.3-4'' DistroAzureLinux
   \<and> \<not> isPackageFixed lengthLib ''1.2.3-4'' ''1.2.3-45'' DistroMariner"
proof -
  have ne: "''1.2.3-4'' \<noteq> []" "''1.2.3-45'' \<noteq> []" by simp_all
  have p: "debNewVersion lengthLib ''1.2.3-45'' = Inr 8"
    "debNewVersion lengthLib ''1.2.3-4'' = Inr 7"
    by (simp_all add: lengthLib_def)
  have c: "debCompare lengthLib 8 7 \<ge> 0" "\<not> debCompare lengthLib 7 8 \<ge> 0"
    "rpmCompare lengthLib (rpmNewVersion lengthLib ''1.2.3-45'') (rpmNewVersion lengthLib ''1.2.3-4'') \<ge> 0"
    "\<not> rpmCompare lengthLib (rpmNewVersion lengthLib ''1.2.3-4'') (rpmNewVersion lengthLib ''1.2.3-45'') \<ge> 0"
    by (simp_all add: lengthLib_def)
  show ?thesis
    using ne p c
      isPackageFixed_compares [OF ne(1), of DistroUbuntu lengthLib "''1.2.3-45''" 8 7]
      isPackageFixed_compares [OF ne(2), of DistroUbuntu lengthLib "''1.2.3-4''" 7 8]
      isPackageFixed_compares [OF ne(1), of DistroAzureLinux lengthLib "''1.2.3-45''"]
      isPackageFixed_compares [OF ne(2), of DistroMariner lengthLib "''1.2.3-4''"]
    by simp
qed

section \<open>Properties of the section tracker\<close>

lemma activeSections_step: "activeSections st \<le> 1 \<Longrightarrow> activeSections (step st line) \<le> 1"
  by (auto simp: activeSections_def step_def dispatch_def Let_def
           split: if_splits option.splits)

lemma activeSections_scanLines:
  "activeSections st \<le> 1 \<Longrightarrow> activeSections (scanLines st ls) \<le> 1"
proof (induction ls arbitrary: st)
  case Nil
  then show ?case by (simp add: scanLines_def)
next
  case (Cons l ls)
  from Cons.prems have "activeSections (step st l) \<le> 1"
    by (rule activeSections_step)
  then have "activeSections (scanLines (step st l) ls) \<le> 1"
    by (rule Cons.IH)
  then show ?case by (simp add: scanLines_def)
qed

text \<open>
  C8. At most one of the three section flags is set at every point of a parse: this
  holds in the initial state, every line preserves it, and so it holds after every prefix
  of every input, whatever its markers are.
\<close>

theorem sections_mutually_exclusive:
  "activeSections initScan = 0
   \<and> (activeSections st \<le> 1 \<longrightarrow> activeSections (step st line) \<le> 1)
   \<and> activeSections (scanLines initScan ls) \<le> 1"
proof -
  have init: "activeSections initScan = 0"
    by (simp add: activeSections_def initScan_def)
  then have "activeSections (scanLines initScan ls) \<le> 1"
    by (intro activeSections_scanLines) simp
  with init show ?thesis
    using activeSections_step [of st line] by blast
qed

theorem sections_mutually_exclusive_witness:
  "activeSections (scanLines initScan [''=== Installed Packages Begin'']) \<le> 1
   \<and> activeSections
        (step (scanLines initScan [''=== Installed Packages Begin'']) ''=== os-release Begin'') \<le> 1
   \<and> activeSections
        (scanLines initScan
           [''=== Installed Packages Begin'', ''containerd images pre-pulled:'',
            ''=== os-release Begin'', ''=== Installed Packages End'']) \<le> 1"
  using sections_mutually_exclusive
          [of "scanLines initScan [''=== Installed Packages Begin'']" "''=== os-release Begin''"
              "[''=== Installed Packages Begin'']"]
        sections_mutually_exclusive
          [of initScan "[]"
              "[''=== Installed Packages Begin'', ''containerd images pre-pulled:'',
                ''=== os-release Begin'', ''=== Installed Packages End'']"]
  by simp

text \<open>
  C2, as the code has it. A line whose trimmed text is \<open>=== Installed Packages End\<close>
  clears the packages flag and changes nothing else; a line whose trimmed text is
  \<open>=== os-release End\<close> clears the OS-release flag and changes nothing else. So an End
  marker leaves no section active when none was active or when the active section is its
  own, and it leaves a section opened by a different marker active.
\<close>

theorem end_marker_clears_own_flag:
  "(TrimSpace line = ''=== Installed Packages End''
      \<longrightarrow> step st line = st\<lparr>inPackageSection := False\<rparr>)
   \<and> (TrimSpace line = ''=== os-release End''
      \<longrightarrow> step st line = st\<lparr>inOSReleaseSection := False\<rparr>)"
  by (simp add: step_def)

theorem end_marker_clears_own_flag_witness:
  "TrimSpace ''  === Installed Packages End '' = ''=== Installed Packages End''
   \<and> TrimSpace ''=== os-release End'' = ''=== os-release End''
   \<and> inPackageSection (scanLines initScan [''=== Installed Packages Begin''])
   \<and> activeSections
         (step (scanLines initScan [''=== Installed Packages Begin''])
            ''  === Installed Packages End '') = 0
   \<and> activeSections (step initScan ''=== os-release End'') = 0"
proof -
  have t: "TrimSpace ''  === Installed Packages End '' = ''=== Installed Packages End''"
    "TrimSpace ''=== os-release End'' = ''=== os-release End''"
    by code_simp+
  have s: "inPackageSection (scanLines initScan [''=== Installed Packages Begin''])"
    "\<not> inOSReleaseSection (scanLines initScan [''=== Installed Packages Begin''])"
    "\<not> inContainerImagesSection (scanLines initScan [''=== Installed Packages Begin''])"
    by code_simp+
  show ?thesis
    using t s
      end_marker_clears_own_flag
        [of "''  === Installed Packages End ''"
            "scanLines initScan [''=== Installed Packages Begin'']"]
      end_marker_clears_own_flag [of "''=== os-release End''" initScan]
    by (simp add: activeSections_def initScan_def)
qed

text \<open>
  C2 as stated fails: after \<open>=== os-release Begin\<close> the OS-release section is active,
  and the line \<open>=== Installed Packages End\<close> leaves it active.
\<close>

theorem end_marker_other_section_counterexample:
  "TrimSpace ''=== Installed Packages End'' = ''=== Installed Packages End''
   \<and> inOSReleaseSection (scanLines initScan [''=== os-release Begin''])
   \<and> inOSReleaseSection
         (scanLines initScan [''=== os-release Begin'', ''=== Installed Packages End''])
   \<and> activeSections
         (scanLines initScan [''=== os-release Begin'', ''=== Installed Packages End'']) = 1"
  by code_simp

section \<open>Properties of the parse result\<close>

text \<open>
  C3. When the scanner reports no error, \<open>Parse\<close> returns the result built from the
  scan, and it returns \<open>ErrNoPackageSection\<close> exactly when the package list is empty,
  the container-image list is empty and no OS release was recorded; otherwise the error
  is nil.
\<close>

theorem Parse_no_content_iff:
  "\<exists>r e. Parse (Some (Reader ls None)) = (Some r, e)
     \<and> Packages r = packages (scanLines initScan ls)
     \<and> ContainerImages r = containerImages (scanLines initScan ls)
     \<and> (OSRelease r = None \<longleftrightarrow> osReleaseData (scanLines initScan ls) = [])
     \<and> (e = Some ErrNoPackageSection
          \<longleftrightarrow> Packages r = [] \<and> ContainerImages r = [] \<and> OSRelease r = None)
     \<and> (e = None
          \<longleftrightarrow> Packages r \<noteq> [] \<or> ContainerImages r \<noteq> [] \<or> OSRelease r \<noteq> None)"
  by (simp add: finish_def Let_def)

theorem Parse_no_content_iff_witness:
  "snd (Parse (Some (Reader [''Starting build'', ''Disk usage:''] None)))
     = Some ErrNoPackageSection
   \<and> snd (Parse (Some (Reader [''containerd images pre-pulled:'', ''  - pause:3.6''] None)))
     = None"
proof -
  have a: "packages (scanLines initScan [''Starting build'', ''Disk usage:'']) = []"
    "containerImages (scanLines initScan [''Starting build'', ''Disk usage:'']) = []"
    "osReleaseData (scanLines initScan [''Starting build'', ''Disk usage:'']) = []"
    by code_simp+
  have b: "containerImages
            (scanLines initScan [''containerd images pre-pulled:'', ''  - pause:3.6''])
           = [\<lparr>imgName = ''pause:3.6''\<rparr>]"
    by code_simp
  from Parse_no_content_iff [of "[''Starting build'', ''Disk usage:'']"] a
  have 1: "snd (Parse (Some (Reader [''Starting build'', ''Disk usage:''] None)))
           = Some ErrNoPackageSection"
    by auto
  from Parse_no_content_iff [of "[''containerd images pre-pulled:'', ''  - pause:3.6'']"] b
  have 2: "snd (Parse (Some (Reader [''containerd images pre-pulled:'', ''  - pause:3.6''] None)))
           = None"
    by auto
  from 1 2 show ?thesis by simp
qed

text \<open>
  C1, as the code has it. When the map of recognized OS-release keys is not empty and
  its \<open>ID\<close> is \<open>ubuntu\<close>, \<open>debian\<close>, \<open>azurelinux\<close> or \<open>mariner\<close>, the detected
  distribution is the one the \<open>ID\<close> names and the counters are not consulted. In every
  other case (the map is empty, or it is not empty and its \<open>ID\<close> is absent or has
  another value) the counters decide: strictly more RPM matches give AzureLinux, strictly
  more APT matches give Ubuntu/Debian, equal counts give Unknown. The OS release of the
  result carries this distribution.
\<close>

theorem detected_distro_by_id_then_counters:
  "detectedDistro st =
     (let ident = mapGet (osReleaseData st) ''ID'' in
      if osReleaseData st \<noteq> [] \<and> (ident = ''ubuntu'' \<or> ident = ''debian'') then DistroUbuntu
      else if osReleaseData st \<noteq> [] \<and> ident = ''azurelinux'' then DistroAzureLinux
      else if osReleaseData st \<noteq> [] \<and> ident = ''mariner'' then DistroMariner
      else if rpmPackageCount st > ubuntuPackageCount st then DistroAzureLinux
      else if ubuntuPackageCount st > rpmPackageCount st then DistroUbuntu
      else DistroUnknown)
   \<and> (\<exists>r e. Parse (Some (Reader ls None)) = (Some r, e)
        \<and> map_option relDistro (OSRelease r)
            = (if osReleaseData (scanLines initScan ls) = [] then None
               else Some (detectedDistro (scanLines initScan ls))))"
  by (simp add: detectedDistro_def detectDistroFromID_def finish_def Let_def
        DistroUnknown_def DistroUbuntu_def DistroAzureLinux_def DistroMariner_def)

theorem detected_distro_by_id_then_counters_witness:
  "osReleaseData
      (scanLines initScan
         [''=== Installed Packages Begin'',
          ''adduser/noble,now 3.137ubuntu1 all [installed,automatic]'',
          ''=== os-release Begin'', ''ID=azurelinux'']) = [(''ID'', ''azurelinux'')]
   \<and> ubuntuPackageCount
      (scanLines initScan
         [''=== Installed Packages Begin'',
          ''adduser/noble,now 3.137ubuntu1 all [installed,automatic]'',
          ''=== os-release Begin'', ''ID=azurelinux'']) = 1
   \<and> detectedDistro
      (scanLines initScan
         [''=== Installed Packages Begin'',
          ''adduser/noble,now 3.137ubuntu1 all [installed,automatic]'',
          ''=== os-release Begin'', ''ID=azurelinux'']) = DistroAzureLinux"
proof -
  have a: "osReleaseData
      (scanLines initScan
         [''=== Installed Packages Begin'',
          ''adduser/noble,now 3.137ubuntu1 all [installed,automatic]'',
          ''=== os-release Begin'', ''ID=azurelinux'']) = [(''ID'', ''azurelinux'')]"
    by code_simp
  have b: "ubuntuPackageCount
      (scanLines initScan
         [''=== Installed Packages Begin'',
          ''adduser/noble,now 3.137ubuntu1 all [installed,automatic]'',
          ''=== os-release Begin'', ''ID=azurelinux'']) = 1"
    by code_simp
  show ?thesis
    using a b
      detected_distro_by_id_then_counters
        [of "scanLines initScan
         [''=== Installed Packages Begin'',
          ''adduser/noble,now 3.137ubuntu1 all [installed,automatic]'',
          ''=== os-release Begin'', ''ID=azurelinux'']" "[]"]
    by (simp add: mapGet_def)
qed

text \<open>
  C1 as stated fails: with the OS release \<open>ID=fedora\<close> the map is not empty and the
  \<open>ID\<close> is not a recognized one, and one RPM line makes the detected distribution
  AzureLinux, not Unknown.
\<close>

theorem unrecognized_id_uses_counters_counterexample:
  "Parse (Some (Reader
      [''=== os-release Begin'', ''ID=fedora'', ''=== os-release End'',
       ''=== Installed Packages Begin'', ''filesystem-1.1-21.azl3.x86_64'',
       ''=== Installed Packages End''] None))
   = (Some \<lparr>Packages = [\<lparr>Name = ''filesystem'', Version = ''1.1-21.azl3''\<rparr>],
             ContainerImages = [],
             OSRelease = Some \<lparr>relName = [], relVersionID = [], relVersion = [],
                                relPrettyName = [], relID = ''fedora'',
                                relDistro = DistroAzureLinux\<rparr>\<rparr>, None)
   \<and> DistroAzureLinux \<noteq> DistroUnknown"
  by code_simp

section \<open>Properties of the container-image section\<close>

text \<open>
  The trimmed text of a line that starts with \<open>"  - "\<close> starts with the hyphen, so such a
  line is neither blank nor a marker and goes to the classifier of the active section.
\<close>

lemma leadingSpace_blank: "leadingSpace (CHR '' '' # xs) = Some '' ''"
  by (simp add: leadingSpace_def whiteSpace_def)

lemma leadingSpace_dash: "leadingSpace (CHR ''-'' # xs) = None"
  by (simp add: leadingSpace_def whiteSpace_def)

lemma trimLeft_item: "trimLeft (''  - '' @ r) = ''- '' @ r"
  by (simp add: trimLeft.simps [of "CHR '' '' # xs" for xs] trimLeft.simps [of "CHR ''-'' # xs" for xs]
        leadingSpace_blank leadingSpace_dash)

lemma whiteSpace_no_dash: "t \<in> set whiteSpace \<Longrightarrow> hd t \<noteq> CHR ''-''"
  by (auto simp: whiteSpace_def)

lemma trimRight_dash:
  "s \<noteq> [] \<Longrightarrow> hd s = CHR ''-'' \<Longrightarrow> trimRight s \<noteq> [] \<and> hd (trimRight s) = CHR ''-''"
proof (induction s rule: trimRight.induct)
  case (1 s)
  show ?case
  proof (cases "trailingSpace s")
    case None
    with 1 show ?thesis by (simp add: trimRight.simps [of s])
  next
    case (Some t)
    then have t: "t \<in> set whiteSpace" "suffix t s"
      using find_Some_mem [of "\<lambda>t. suffix t s" whiteSpace t]
      by (simp_all add: trailingSpace_def)
    then obtain u where u: "s = u @ t" by (auto simp: suffix_def)
    have "u \<noteq> []"
    proof
      assume "u = []"
      with u "1.prems" t(1) show False using whiteSpace_no_dash by auto
    qed
    with u "1.prems" have "take (length s - length t) s \<noteq> []"
      "hd (take (length s - length t) s) = CHR ''-''"
      by auto
    with "1.IH" [OF Some] have "trimRight (take (length s - length t) s) \<noteq> []
      \<and> hd (trimRight (take (length s - length t) s)) = CHR ''-''" by blast
    with Some show ?thesis by (simp add: trimRight.simps [of s])
  qed
qed

lemma TrimSpace_item:
  assumes "HasPrefix line ''  - ''"
  shows "\<exists>r. TrimSpace line = CHR ''-'' # r"
proof -
  from assms obtain r where "line = ''  - '' @ r"
    by (auto simp: HasPrefix_def prefix_def)
  then have "trimLeft line = ''- '' @ r" using trimLeft_item by simp
  then have "TrimSpace line \<noteq> [] \<and> hd (TrimSpace line) = CHR ''-''"
    using trimRight_dash [of "''- '' @ r"] by (simp add: TrimSpace_def)
  then show ?thesis by (cases "TrimSpace line") auto
qed

lemma step_item: "HasPrefix line ''  - '' \<Longrightarrow> step st line = dispatch st line (TrimSpace line)"
  using TrimSpace_item [of line] by (auto simp: step_def)

lemma marker_not_item: "HasPrefix line ''  - '' \<Longrightarrow> TrimSpace line \<notin> set sectionMarkers"
  using TrimSpace_item [of line] by (auto simp: sectionMarkers_def)

text \<open>
  C7, as the code has it. In the container-images state a line is recorded exactly when
  the untrimmed line starts with the four characters \<open>"  - "\<close> and the rest, trimmed,
  is not empty; the recorded name is that trimmed rest. A line without the prefix whose
  trimmed text is not empty, not one of the five markers and not \<open>Listing...\<close> ends
  the container-images state and changes nothing else. A blank line, and the line
  \<open>Listing...\<close>, change nothing.
\<close>

theorem container_images_state:
  assumes "inContainerImagesSection st" "\<not> inPackageSection st" "\<not> inOSReleaseSection st"
  shows "containerImages (step st line)
         = (if HasPrefix line ''  - '' \<and> TrimSpace (TrimPrefix line ''  - '') \<noteq> []
            then containerImages st @ [\<lparr>imgName = TrimSpace (TrimPrefix line ''  - '')\<rparr>]
            else containerImages st)
       \<and> (TrimSpace line \<noteq> [] \<and> \<not> HasPrefix line ''  - ''
            \<and> TrimSpace line \<notin> set sectionMarkers \<and> TrimSpace line \<noteq> ''Listing...''
          \<longrightarrow> step st line = st\<lparr>inContainerImagesSection := False\<rparr>)
       \<and> (TrimSpace line = [] \<or> TrimSpace line = ''Listing...'' \<longrightarrow> step st line = st)"
proof (cases "HasPrefix line ''  - ''")
  case True
  then have "line \<noteq> []" by (auto simp: HasPrefix_def)
  with True assms TrimSpace_item [OF True] show ?thesis
    by (auto simp: step_item dispatch_def parseContainerImageLine_def TrimPrefix_def Let_def)
next
  case False
  with assms show ?thesis
    by (auto simp: step_def dispatch_def sectionMarkers_def Let_def)
qed

theorem container_images_state_witness:
  "inContainerImagesSection (scanLines initScan [''containerd images pre-pulled:''])
   \<and> \<not> inPackageSection (scanLines initScan [''containerd images pre-pulled:''])
   \<and> \<not> inOSReleaseSection (scanLines initScan [''containerd images pre-pulled:''])
   \<and> containerImages
        (step (scanLines initScan [''containerd images pre-pulled:'']) ''  - pause:3.6  '')
      = [\<lparr>imgName = ''pause:3.6''\<rparr>]
   \<and> step (scanLines initScan [''containerd images pre-pulled:'']) ''Successfully copied''
      = (scanLines initScan [''containerd images pre-pulled:''])
           \<lparr>inContainerImagesSection := False\<rparr>
   \<and> step (scanLines initScan [''containerd images pre-pulled:'']) ''   ''
      = scanLines initScan [''containerd images pre-pulled:'']"
proof -
  let ?st = "scanLines initScan [''containerd images pre-pulled:'']"
  have st: "inContainerImagesSection ?st" "\<not> inPackageSection ?st"
    "\<not> inOSReleaseSection ?st" "containerImages ?st = []"
    by code_simp+
  have a: "HasPrefix ''  - pause:3.6  '' ''  - ''"
    "TrimSpace (TrimPrefix ''  - pause:3.6  '' ''  - '') = ''pause:3.6''"
    by code_simp+
  have b: "TrimSpace ''Successfully copied'' = ''Successfully copied''"
    "\<not> HasPrefix ''Successfully copied'' ''  - ''"
    "''Successfully copied'' \<notin> set sectionMarkers"
    by code_simp+
  have c: "TrimSpace ''   '' = []"
    by code_simp
  show ?thesis
    using st a b c
      container_images_state [OF st(1-3), of "''  - pause:3.6  ''"]
      container_images_state [OF st(1-3), of "''Successfully copied''"]
      container_images_state [OF st(1-3), of "''   ''"]
    by simp
qed

text \<open>
  C7 as stated fails: in the container-images state the line \<open>Listing...\<close> is not
  blank, lacks the prefix and is none of the markers, and it does not end the state: the
  item line after it is still recorded.
\<close>

theorem listing_keeps_container_state_counterexample:
  "inContainerImagesSection (scanLines initScan [''containerd images pre-pulled:''])
   \<and> TrimSpace ''Listing...'' = ''Listing...''
   \<and> \<not> HasPrefix ''Listing...'' ''  - ''
   \<and> ''Listing...'' \<notin> set sectionMarkers
   \<and> inContainerImagesSection
        (scanLines initScan [''containerd images pre-pulled:'', ''Listing...''])
   \<and> containerImages
        (scanLines initScan [''containerd images pre-pulled:'', ''Listing...'', ''  - pause:3.6''])
      = [\<lparr>imgName = ''pause:3.6''\<rparr>]"
  by code_simp

text \<open>
  C10. In the container-images state a line that starts with \<open>"  - "\<close> and whose rest
  is empty or only white space changes nothing: no image is recorded and the state stays,
  so that a following line with the prefix and a non-blank rest is recorded.
\<close>

theorem blank_item_keeps_container_state:
  assumes "inContainerImagesSection st" "\<not> inPackageSection st" "\<not> inOSReleaseSection st"
    and "HasPrefix line ''  - ''" "TrimSpace (TrimPrefix line ''  - '') = []"
  shows "step st line = st
       \<and> (HasPrefix next ''  - '' \<and> TrimSpace (TrimPrefix next ''  - '') \<noteq> []
          \<longrightarrow> step (step st line) next
              = st\<lparr>containerImages := containerImages st @ [\<lparr>imgName = TrimSpace (TrimPrefix next ''  - '')\<rparr>]\<rparr>)"
proof -
  from assms(4) have ne: "line \<noteq> []" by (auto simp: HasPrefix_def)
  with assms have 1: "step st line = st"
    by (simp add: step_item dispatch_def parseContainerImageLine_def TrimPrefix_def)
  have 2: "step st next
           = st\<lparr>containerImages := containerImages st @ [\<lparr>imgName = TrimSpace (TrimPrefix next ''  - '')\<rparr>]\<rparr>"
    if "HasPrefix next ''  - ''" "TrimSpace (TrimPrefix next ''  - '') \<noteq> []"
  proof -
    from that(1) have "next \<noteq> []" by (auto simp: HasPrefix_def)
    with that assms(1-3) show ?thesis
      by (simp add: step_item dispatch_def parseContainerImageLine_def TrimPrefix_def)
  qed
  from 1 2 show ?thesis by simp
qed

theorem blank_item_keeps_container_state_witness:
  "HasPrefix ''  - '' ''  - '' \<and> TrimSpace (TrimPrefix ''  - '' ''  - '') = []
   \<and> step (scanLines initScan [''containerd images pre-pulled:'']) ''  - ''
      = scanLines initScan [''containerd images pre-pulled:'']
   \<and> containerImages
        (step (step (scanLines initScan [''containerd images pre-pulled:'']) ''  - '')
           ''  - pause:3.6'')
      = [\<lparr>imgName = ''pause:3.6''\<rparr>]"
proof -
  let ?st = "scanLines initScan [''containerd images pre-pulled:'']"
  have st: "inContainerImagesSection ?st" "\<not> inPackageSection ?st"
    "\<not> inOSReleaseSection ?st"
    by code_simp+
  have e: "containerImages ?st = []"
    by code_simp
  have a: "HasPrefix ''  - '' ''  - ''" "TrimSpace (TrimPrefix ''  - '' ''  - '') = []"
    by code_simp+
  have b: "HasPrefix ''  - pause:3.6'' ''  - ''"
    "TrimSpace (TrimPrefix ''  - pause:3.6'' ''  - '') = ''pause:3.6''"
    by code_simp+
  from b(2) have ne: "TrimSpace (TrimPrefix ''  - pause:3.6'' ''  - '') \<noteq> []"
    by simp
  from b(1) ne blank_item_keeps_container_state [OF st a, of "''  - pause:3.6''"]
  have 1: "step ?st ''  - '' = ?st"
    and 2: "step (step ?st ''  - '') ''  - pause:3.6''
            = ?st\<lparr>containerImages := containerImages ?st
                    @ [\<lparr>imgName = TrimSpace (TrimPrefix ''  - pause:3.6'' ''  - '')\<rparr>]\<rparr>"
    by blast+
  from 2 e b(2) have "containerImages (step (step ?st ''  - '') ''  - pause:3.6'')
                 = [\<lparr>imgName = ''pause:3.6''\<rparr>]"
    by simp
  with a 1 show ?thesis by blast
qed

section \<open>Properties of pattern matching\<close>

text \<open>
  What a result says about the text: each construct consumes a prefix of the text, of the
  shape the construct allows, and only a group changes the captures.
\<close>

lemma star_result:
  "(p', s') \<in> set (star k p s) \<Longrightarrow> \<exists>u. s = u @ s' \<and> p' = p + length u \<and> (\<forall>x\<in>set u. cc k x)"
proof (induction s arbitrary: p)
  case Nil
  then show ?case by simp
next
  case (Cons x xs)
  show ?case
  proof (cases "(p', s') = (p, x # xs)")
    case True
    then show ?thesis by simp
  next
    case False
    with Cons.prems have x: "cc k x" and m: "(p', s') \<in> set (star k (Suc p) xs)"
      by (auto split: if_splits)
    from Cons.IH [OF m] obtain u where "xs = u @ s'" "p' = Suc p + length u" "\<forall>x\<in>set u. cc k x"
      by blast
    with x have "x # xs = (x # u) @ s' \<and> p' = p + length (x # u) \<and> (\<forall>y\<in>set (x # u). cc k y)"
      by simp
    then show ?thesis by blast
  qed
qed

lemma run_Plus_result:
  assumes "(p', s', c') \<in> set (run (Plus k) p s c)"
  shows "\<exists>u. u \<noteq> [] \<and> s = u @ s' \<and> p' = p + length u \<and> (\<forall>x\<in>set u. cc k x) \<and> c' = c"
proof (cases s)
  case Nil
  with assms show ?thesis by simp
next
  case (Cons x xs)
  with assms have x: "cc k x" and m: "(p', s') \<in> set (star k (Suc p) xs)" and c: "c' = c"
    by (auto split: if_splits)
  from star_result [OF m] obtain u where "xs = u @ s'" "p' = Suc p + length u" "\<forall>x\<in>set u. cc k x"
    by blast
  with x c Cons have "x # u \<noteq> [] \<and> s = (x # u) @ s' \<and> p' = p + length (x # u)
      \<and> (\<forall>y\<in>set (x # u). cc k y) \<and> c' = c"
    by simp
  then show ?thesis by blast
qed

lemma run_Star_result:
  assumes "(p', s', c') \<in> set (run (Star k) p s c)"
  shows "\<exists>u. s = u @ s' \<and> p' = p + length u \<and> (\<forall>x\<in>set u. cc k x) \<and> c' = c"
  using assms star_result [of p' s' k p s] by auto

lemma run_Lit_result:
  "(p', s', c') \<in> set (run (Lit t) p s c) \<Longrightarrow> s = t @ s' \<and> p' = p + length t \<and> c' = c"
  by (auto simp: prefix_def split: if_splits)

lemma run_Cat_result:
  "q \<in> set (run (Cat a b) p s c)
   \<Longrightarrow> \<exists>p1 s1 c1. (p1, s1, c1) \<in> set (run a p s c) \<and> q \<in> set (run b p1 s1 c1)"
  by auto

lemma run_Grp_result:
  "(p', s', c') \<in> set (run (Grp n a) p s c)
   \<Longrightarrow> \<exists>c1. (p', s', c1) \<in> set (run a p s c) \<and> c' = c1(n \<mapsto> take (p' - p) s)"
  by auto

lemma run_suffix:
  "(p', s', c') \<in> set (run r p s c) \<Longrightarrow> \<exists>u. s = u @ s' \<and> p' = p + length u"
proof (induction r arbitrary: p s c p' s' c')
  case (Cat a b)
  from run_Cat_result [OF Cat.prems] obtain p1 s1 c1
    where 1: "(p1, s1, c1) \<in> set (run a p s c)" and 2: "(p', s', c') \<in> set (run b p1 s1 c1)"
    by blast
  from Cat.IH(1) [OF 1] obtain u where u: "s = u @ s1" "p1 = p + length u" by blast
  from Cat.IH(2) [OF 2] obtain v where v: "s1 = v @ s'" "p' = p1 + length v" by blast
  from u v have "s = (u @ v) @ s' \<and> p' = p + length (u @ v)" by simp
  then show ?case by blast
next
  case (Plus k)
  from run_Plus_result [OF Plus.prems] show ?case by blast
next
  case (Star k)
  from run_Star_result [OF Star.prems] show ?case by blast
next
  case (Lit t)
  from run_Lit_result [OF Lit.prems] show ?case by blast
next
  case (Grp n a)
  from run_Grp_result [OF Grp.prems] obtain c1 where "(p', s', c1) \<in> set (run a p s c)" by blast
  from Grp.IH [OF this] show ?case .
qed (auto split: if_splits list.splits)

text \<open>A pattern that begins with \<open>^\<close> can only match at the start of the text.\<close>

lemma search_Bol: "0 < p \<Longrightarrow> search (Cat Bol r) p s = None"
  by (induction s arbitrary: p) auto

lemma search_anchored:
  "search (Cat Bol r) 0 s =
     (case run r 0 s Map.empty of [] \<Rightarrow> None | (e, _, c) # _ \<Rightarrow> Some (0, e, c))"
  by (cases s) (auto simp: search_Bol split: list.splits)

declare run.simps [simp del] search.simps [simp del]

section \<open>Properties of the packages section\<close>

text \<open>
  A line that matches the APT pattern contains a slash, so it is neither blank nor a
  marker, and in the packages section it adds the package of its two groups.
\<close>

lemma FindStringSubmatch_length:
  "length (FindStringSubmatch r s) = (if MatchString r s then Suc (ngroups r) else 0)"
  by (auto simp: FindStringSubmatch_def MatchString_def split: option.splits)

lemma ubuntu_slash:
  assumes "isUbuntuPackageFormat t"
  shows "CHR ''/'' \<in> set t"
proof -
  let ?rest = "cat [Star AnyChar, Lit '',now'', Plus Space, Grp 2 (Plus NonSpace), Plus Space,
                    Plus NonSpace, Plus Space, Lit ''['', Star AnyChar, Lit '']'']"
  let ?r = "Cat (Grp 1 (Plus (NotChar CHR ''/''))) (Cat (Lit ''/'') ?rest)"
  have u: "ubuntuRegex = Cat Bol ?r" by (simp add: ubuntuRegex_def)
  from assms have "run ?r 0 t Map.empty \<noteq> []"
    unfolding isUbuntuPackageFormat_def MatchString_def u search_anchored
    by (auto split: list.splits)
  then obtain q where "q \<in> set (run ?r 0 t Map.empty)"
    by (cases "run ?r 0 t Map.empty") auto
  from run_Cat_result [OF this] obtain p1 s1 c1
    where 1: "(p1, s1, c1) \<in> set (run (Grp 1 (Plus (NotChar CHR ''/''))) 0 t Map.empty)"
      and 2: "q \<in> set (run (Cat (Lit ''/'') ?rest) p1 s1 c1)"
    by blast
  from run_Cat_result [OF 2] obtain p2 s2 c2
    where "(p2, s2, c2) \<in> set (run (Lit ''/'') p1 s1 c1)" by blast
  from run_Lit_result [OF this] have "s1 = ''/'' @ s2" by simp
  moreover from run_suffix [OF 1] obtain u where "t = u @ s1" by blast
  ultimately show ?thesis by simp
qed

lemma parsePackageLine_apt:
  assumes "isUbuntuPackageFormat t"
  shows "parsePackageLine t =
           Some \<lparr>Name = FindStringSubmatch ubuntuRegex t ! 1,
                 Version = FindStringSubmatch ubuntuRegex t ! 2\<rparr>"
proof -
  from ubuntu_slash [OF assms] have "t \<noteq> []" by auto
  moreover have "length (FindStringSubmatch ubuntuRegex t) = 3"
    using assms by (simp add: FindStringSubmatch_length isUbuntuPackageFormat_def ubuntuRegex_def)
  ultimately show ?thesis by (simp add: parsePackageLine_def Let_def)
qed

lemma step_apt:
  assumes "inPackageSection st" "isUbuntuPackageFormat (TrimSpace line)"
  shows "step st line =
           st\<lparr>packages := packages st @ [aptPackage line],
              ubuntuPackageCount := ubuntuPackageCount st + 1\<rparr>"
proof -
  from ubuntu_slash [OF assms(2)] have "CHR ''/'' \<in> set (TrimSpace line)" .
  then have "step st line = dispatch st line (TrimSpace line)"
    by (auto simp: step_def Let_def)
  with assms show ?thesis
    by (simp add: dispatch_def parsePackageLine_apt aptPackage_def)
qed

lemma step_blank:
  "inPackageSection st \<Longrightarrow> TrimSpace line = [] \<Longrightarrow> step st line = st"
  by (simp add: step_def)

lemma scanLines_Cons: "scanLines st (l # ls) = scanLines (step st l) ls"
  by (simp add: scanLines_def)

lemma scanLines_append: "scanLines st (xs @ ys) = scanLines (scanLines st xs) ys"
  by (simp add: scanLines_def)

lemma scan_apt_section:
  assumes "inPackageSection st"
    and "\<forall>l\<in>set body. TrimSpace l = [] \<or> isUbuntuPackageFormat (TrimSpace l)"
  shows "scanLines st body =
           st\<lparr>packages := packages st @ map aptPackage (filter (\<lambda>l. TrimSpace l \<noteq> []) body),
              ubuntuPackageCount :=
                ubuntuPackageCount st + length (filter (\<lambda>l. TrimSpace l \<noteq> []) body)\<rparr>"
  using assms
proof (induction body arbitrary: st)
  case Nil
  then show ?case by (simp add: scanLines_def)
next
  case (Cons l body)
  show ?case
  proof (cases "TrimSpace l = []")
    case True
    with Cons.prems have "step st l = st" by (simp add: step_blank)
    with True Cons show ?thesis by (simp add: scanLines_Cons)
  next
    case False
    with Cons.prems have apt: "isUbuntuPackageFormat (TrimSpace l)" by simp
    let ?st = "st\<lparr>packages := packages st @ [aptPackage l],
                  ubuntuPackageCount := ubuntuPackageCount st + 1\<rparr>"
    from step_apt [OF Cons.prems(1) apt] have s: "step st l = ?st" .
    from Cons.prems have "inPackageSection ?st"
      "\<forall>l\<in>set body. TrimSpace l = [] \<or> isUbuntuPackageFormat (TrimSpace l)"
      by simp_all
    from Cons.IH [OF this] s False show ?thesis
      by (simp add: scanLines_Cons)
  qed
qed

text \<open>Outside the packages section, up to the next Begin marker, no package is added.\<close>

lemma step_outside:
  assumes "\<not> inPackageSection st" "TrimSpace l \<noteq> ''=== Installed Packages Begin''"
  shows "packages (step st l) = packages st \<and> \<not> inPackageSection (step st l)"
  using assms
  by (auto simp: step_def dispatch_def Let_def split: option.splits)

lemma scan_outside:
  assumes "\<not> inPackageSection st"
    and "\<forall>l\<in>set ls. TrimSpace l \<noteq> ''=== Installed Packages Begin''"
  shows "packages (scanLines st ls) = packages st \<and> \<not> inPackageSection (scanLines st ls)"
  using assms
proof (induction ls arbitrary: st)
  case Nil
  then show ?case by (simp add: scanLines_def)
next
  case (Cons l ls)
  from Cons.prems step_outside [of st l]
  have 1: "packages (step st l) = packages st" "\<not> inPackageSection (step st l)"
    by simp_all
  from Cons.prems have "\<forall>l\<in>set ls. TrimSpace l \<noteq> ''=== Installed Packages Begin''"
    by simp
  from Cons.IH [OF 1(2) this] 1 show ?case by (simp add: scanLines_Cons)
qed

text \<open>
  C9. Take a packages section: a line whose trimmed text is the Begin marker, lines that
  are blank or, trimmed, match the APT pattern, and a line whose trimmed text is the End
  marker. From every state of the scan the section adds to the packages, in order, the
  first and second capture groups of the APT pattern on each of its non-blank lines. For
  an input with this one packages section (no line before or after it has the Begin
  marker as its trimmed text) \<open>Parse\<close> succeeds in returning a result whose packages are
  exactly these, as many as the section has non-blank lines.
\<close>

theorem apt_section_extracted:
  assumes "TrimSpace b = ''=== Installed Packages Begin''"
    and "\<forall>l\<in>set body. TrimSpace l = [] \<or> isUbuntuPackageFormat (TrimSpace l)"
    and "TrimSpace e = ''=== Installed Packages End''"
  shows "packages (scanLines st ([b] @ body @ [e]))
           = packages st @ map aptPackage (filter (\<lambda>l. TrimSpace l \<noteq> []) body)
       \<and> ((\<forall>l\<in>set pre. TrimSpace l \<noteq> ''=== Installed Packages Begin'')
            \<and> (\<forall>l\<in>set post. TrimSpace l \<noteq> ''=== Installed Packages Begin'')
          \<longrightarrow> (\<exists>r err.
                Parse (Some (Reader (pre @ [b] @ body @ [e] @ post) None)) = (Some r, err)
                \<and> Packages r = map aptPackage (filter (\<lambda>l. TrimSpace l \<noteq> []) body)
                \<and> length (Packages r) = length (filter (\<lambda>l. TrimSpace l \<noteq> []) body)))"
proof -
  let ?nb = "filter (\<lambda>l. TrimSpace l \<noteq> []) body"
  have sect: "\<not> inPackageSection (scanLines st' ([b] @ body @ [e]))
                 \<and> packages (scanLines st' ([b] @ body @ [e])) = packages st' @ map aptPackage ?nb"
    for st'
  proof -
    let ?s2 = "step st' b"
    from assms(1) have s2: "inPackageSection ?s2" "packages ?s2 = packages st'"
      by (simp_all add: step_def)
    let ?s3 = "scanLines ?s2 body"
    from scan_apt_section [OF s2(1) assms(2)] s2
    have s3: "inPackageSection ?s3" "packages ?s3 = packages st' @ map aptPackage ?nb"
      by simp_all
    from assms(3) s3 have "\<not> inPackageSection (step ?s3 e)"
      "packages (step ?s3 e) = packages st' @ map aptPackage ?nb"
      by (simp_all add: step_def)
    moreover have "scanLines st' ([b] @ body @ [e]) = step ?s3 e"
      by (simp add: scanLines_append scanLines_Cons scanLines_def)
    ultimately show ?thesis by simp
  qed
  have whole: "\<exists>r err.
                Parse (Some (Reader (pre @ [b] @ body @ [e] @ post) None)) = (Some r, err)
                \<and> Packages r = map aptPackage ?nb \<and> length (Packages r) = length ?nb"
    if pre: "\<forall>l\<in>set pre. TrimSpace l \<noteq> ''=== Installed Packages Begin''"
      and post: "\<forall>l\<in>set post. TrimSpace l \<noteq> ''=== Installed Packages Begin''"
  proof -
    let ?s1 = "scanLines initScan pre"
    have "\<not> inPackageSection initScan" "packages initScan = []"
      by (simp_all add: initScan_def)
    with scan_outside [OF _ pre, of initScan]
    have s1: "packages ?s1 = []" by simp
    let ?s4 = "scanLines ?s1 ([b] @ body @ [e])"
    from sect [of ?s1] s1
    have s4: "\<not> inPackageSection ?s4" "packages ?s4 = map aptPackage ?nb"
      by simp_all
    from scan_outside [OF s4(1) post] s4
    have "packages (scanLines ?s4 post) = map aptPackage ?nb" by simp
    moreover have "scanLines initScan (pre @ [b] @ body @ [e] @ post) = scanLines ?s4 post"
      by (simp add: scanLines_def)
    ultimately have "packages (scanLines initScan (pre @ [b] @ body @ [e] @ post))
                     = map aptPackage ?nb"
      by simp
    then show ?thesis by (simp add: finish_def Let_def)
  qed
  from sect [of st] whole show ?thesis by blast
qed

theorem apt_section_extracted_witness:
  "TrimSpace '' === Installed Packages Begin'' = ''=== Installed Packages Begin''
   \<and> isUbuntuPackageFormat (TrimSpace ''adduser/noble,now 3.137ubuntu1 all [installed,automatic]'')
   \<and> (\<exists>r err.
        Parse (Some (Reader
          ([''Starting build''] @ ['' === Installed Packages Begin'']
           @ [''adduser/noble,now 3.137ubuntu1 all [installed,automatic]'', ''  '',
              ''bind9-dnsutils/noble-updates,noble-security,now 1:9.18.30-0ubuntu0.24.04.2 amd64 [installed]'']
           @ [''=== Installed Packages End''] @ [''Disk usage:'']) None)) = (Some r, err)
        \<and> Packages r = [\<lparr>Name = ''adduser'', Version = ''3.137ubuntu1''\<rparr>,
                         \<lparr>Name = ''bind9-dnsutils'', Version = ''1:9.18.30-0ubuntu0.24.04.2''\<rparr>]
        \<and> length (Packages r) = 2)"
proof -
  let ?a = "''adduser/noble,now 3.137ubuntu1 all [installed,automatic]''"
  let ?b = "''bind9-dnsutils/noble-updates,noble-security,now 1:9.18.30-0ubuntu0.24.04.2 amd64 [installed]''"
  have pre: "\<forall>l\<in>set [''Starting build'']. TrimSpace l \<noteq> ''=== Installed Packages Begin''"
    by code_simp
  have post: "\<forall>l\<in>set [''Disk usage:'']. TrimSpace l \<noteq> ''=== Installed Packages Begin''"
    by code_simp
  have b: "TrimSpace '' === Installed Packages Begin'' = ''=== Installed Packages Begin''"
    by code_simp
  have e: "TrimSpace ''=== Installed Packages End'' = ''=== Installed Packages End''"
    by code_simp
  have l1: "isUbuntuPackageFormat (TrimSpace ?a)" "TrimSpace ?a \<noteq> []"
    by code_simp+
  have l2: "TrimSpace ''  '' = []"
    by code_simp
  have l3: "isUbuntuPackageFormat (TrimSpace ?b)" "TrimSpace ?b \<noteq> []"
    by code_simp+
  from l1 l2 l3
  have body: "\<forall>l\<in>set [?a, ''  '', ?b]. TrimSpace l = [] \<or> isUbuntuPackageFormat (TrimSpace l)"
    by simp
  have v: "aptPackage ?a = \<lparr>Name = ''adduser'', Version = ''3.137ubuntu1''\<rparr>"
    "aptPackage ?b = \<lparr>Name = ''bind9-dnsutils'', Version = ''1:9.18.30-0ubuntu0.24.04.2''\<rparr>"
    by code_simp+
  from apt_section_extracted [OF b body e, of initScan "[''Starting build'']" "[''Disk usage:'']"]
    pre post
  obtain r err
    where p: "Parse (Some (Reader
          ([''Starting build''] @ ['' === Installed Packages Begin''] @ [?a, ''  '', ?b]
           @ [''=== Installed Packages End''] @ [''Disk usage:'']) None)) = (Some r, err)"
      and r: "Packages r = map aptPackage (filter (\<lambda>l. TrimSpace l \<noteq> []) [?a, ''  '', ?b])"
    by blast
  from r l1(2) l2 l3(2) v
  have "Packages r = [\<lparr>Name = ''adduser'', Version = ''3.137ubuntu1''\<rparr>,
                      \<lparr>Name = ''bind9-dnsutils'', Version = ''1:9.18.30-0ubuntu0.24.04.2''\<rparr>]"
    by simp
  moreover from this have "length (Packages r) = 2" by simp
  ultimately show ?thesis using b l1(1) p by blast
qed

section \<open>Properties of the RPM classifier\<close>

declare cc.simps [simp del]

text \<open>
  Every match of the RPM pattern splits the line at its last hyphen, with the name part
  in the first group and the version part in the second.
\<close>

lemma run_Alt_result:
  "q \<in> set (run (Alt a b) p s c) \<Longrightarrow> q \<in> set (run a p s c) \<or> q \<in> set (run b p s c)"
  by (auto simp: run.simps)

lemma run_Eol_result:
  "(p', s', c') \<in> set (run Eol p s c) \<Longrightarrow> s = [] \<and> s' = [] \<and> p' = p \<and> c' = c"
  by (auto simp: run.simps split: if_splits)

lemma run_One_result:
  "(p', s', c') \<in> set (run (One k) p s c) \<Longrightarrow> \<exists>x. s = x # s' \<and> cc k x \<and> p' = Suc p \<and> c' = c"
  by (auto simp: run.simps split: if_splits list.splits)

lemma run_Grp_text:
  assumes "(p', s', c') \<in> set (run (Grp n a) p s c)"
  shows "\<exists>u c1. s = u @ s' \<and> p' = p + length u \<and> (p', s', c1) \<in> set (run a p s c)
           \<and> c' = c1(n \<mapsto> u)"
proof -
  from run_Grp_result [OF assms] obtain c1
    where 1: "(p', s', c1) \<in> set (run a p s c)" and 2: "c' = c1(n \<mapsto> take (p' - p) s)"
    by blast
  from run_suffix [OF 1] obtain u where "s = u @ s'" "p' = p + length u" by blast
  with 1 2 show ?thesis by auto
qed

lemma rpm_version_result:
  assumes "(p', s', c') \<in> set (run (cat [Plus (NotChar CHR ''-''), Lit ''.'',
                      Grp 3 (Alt (Lit ''azl3'') (Lit ''cm2'')), Lit ''.'',
                      Grp 4 (Alt (Lit ''x86_64'') (Lit ''noarch''))]) p s c)"
  shows "\<exists>x dist arch. s = x @ ''.'' @ dist @ ''.'' @ arch @ s' \<and> x \<noteq> [] \<and> CHR ''-'' \<notin> set x
           \<and> (dist = ''azl3'' \<or> dist = ''cm2'') \<and> (arch = ''x86_64'' \<or> arch = ''noarch'')
           \<and> c' 1 = c 1"
proof -
  from assms have a: "(p', s', c') \<in> set (run (Cat (Plus (NotChar CHR ''-'')) (Cat (Lit ''.'')
       (Cat (Grp 3 (Alt (Lit ''azl3'') (Lit ''cm2''))) (Cat (Lit ''.'')
          (Grp 4 (Alt (Lit ''x86_64'') (Lit ''noarch''))))))) p s c)"
    by simp
  from run_Cat_result [OF a] obtain p1 s1 c1
    where 1: "(p1, s1, c1) \<in> set (run (Plus (NotChar CHR ''-'')) p s c)"
      and b: "(p', s', c') \<in> set (run (Cat (Lit ''.'')
       (Cat (Grp 3 (Alt (Lit ''azl3'') (Lit ''cm2''))) (Cat (Lit ''.'')
          (Grp 4 (Alt (Lit ''x86_64'') (Lit ''noarch'')))))) p1 s1 c1)"
    by blast
  from run_Plus_result [OF 1] obtain x
    where x: "x \<noteq> []" "s = x @ s1" "\<forall>y\<in>set x. cc (NotChar CHR ''-'') y" "c1 = c"
    by blast
  from run_Cat_result [OF b] obtain p2 s2 c2
    where 2: "(p2, s2, c2) \<in> set (run (Lit ''.'') p1 s1 c1)"
      and d: "(p', s', c') \<in> set (run (Cat (Grp 3 (Alt (Lit ''azl3'') (Lit ''cm2'')))
                (Cat (Lit ''.'') (Grp 4 (Alt (Lit ''x86_64'') (Lit ''noarch''))))) p2 s2 c2)"
    by blast
  from run_Lit_result [OF 2] have l2: "s1 = ''.'' @ s2" "c2 = c1" by simp_all
  from run_Cat_result [OF d] obtain p3 s3 c3
    where 3: "(p3, s3, c3) \<in> set (run (Grp 3 (Alt (Lit ''azl3'') (Lit ''cm2''))) p2 s2 c2)"
      and e: "(p', s', c') \<in> set (run (Cat (Lit ''.'')
                 (Grp 4 (Alt (Lit ''x86_64'') (Lit ''noarch'')))) p3 s3 c3)"
    by blast
  from run_Grp_text [OF 3] obtain dist c3'
    where g3: "s2 = dist @ s3" "(p3, s3, c3') \<in> set (run (Alt (Lit ''azl3'') (Lit ''cm2'')) p2 s2 c2)"
      "c3 = c3'(3 \<mapsto> dist)"
    by blast
  from run_Alt_result [OF g3(2)] run_Lit_result [of p3 s3 c3' _ p2 s2 c2] g3(1)
  have dist: "(dist = ''azl3'' \<or> dist = ''cm2'') \<and> c3' = c2"
    by auto
  from run_Cat_result [OF e] obtain p4 s4 c4
    where 4: "(p4, s4, c4) \<in> set (run (Lit ''.'') p3 s3 c3)"
      and f: "(p', s', c') \<in> set (run (Grp 4 (Alt (Lit ''x86_64'') (Lit ''noarch''))) p4 s4 c4)"
    by blast
  from run_Lit_result [OF 4] have l4: "s3 = ''.'' @ s4" "c4 = c3" by simp_all
  from run_Grp_text [OF f] obtain arch c5
    where g4: "s4 = arch @ s'" "(p', s', c5) \<in> set (run (Alt (Lit ''x86_64'') (Lit ''noarch'')) p4 s4 c4)"
      "c' = c5(4 \<mapsto> arch)"
    by blast
  from run_Alt_result [OF g4(2)] run_Lit_result [of p' s' c5 _ p4 s4 c4] g4(1)
  have arch: "(arch = ''x86_64'' \<or> arch = ''noarch'') \<and> c5 = c4"
    by auto
  from x l2 g3 l4 g4 have "s = x @ ''.'' @ dist @ ''.'' @ arch @ s'" by simp
  moreover from x have "CHR ''-'' \<notin> set x" by (auto simp: cc.simps)
  moreover from x l2 g3 dist l4 g4 arch have "c' 1 = c 1" by simp
  ultimately show ?thesis using x(1) dist arch by blast
qed

lemma rpm_result:
  assumes "(e, s', c') \<in> set (run (Cat (Grp 1 (Plus AnyChar)) (Cat (Lit ''-'')
              (Cat (Grp 2 (cat [Plus (NotChar CHR ''-''), Lit ''.'',
                      Grp 3 (Alt (Lit ''azl3'') (Lit ''cm2'')), Lit ''.'',
                      Grp 4 (Alt (Lit ''x86_64'') (Lit ''noarch''))])) Eol))) 0 s Map.empty)"
  shows "\<exists>np x dist arch. s = np @ ''-'' @ x @ ''.'' @ dist @ ''.'' @ arch
           \<and> np \<noteq> [] \<and> CHR 0x0A \<notin> set np \<and> x \<noteq> [] \<and> CHR ''-'' \<notin> set x
           \<and> (dist = ''azl3'' \<or> dist = ''cm2'') \<and> (arch = ''x86_64'' \<or> arch = ''noarch'')
           \<and> c' 1 = Some np \<and> c' 2 = Some (x @ ''.'' @ dist @ ''.'' @ arch)"
proof -
  let ?V = "cat [Plus (NotChar CHR ''-''), Lit ''.'',
                      Grp 3 (Alt (Lit ''azl3'') (Lit ''cm2'')), Lit ''.'',
                      Grp 4 (Alt (Lit ''x86_64'') (Lit ''noarch''))]"
  from run_Cat_result [OF assms] obtain p1 s1 c1
    where 1: "(p1, s1, c1) \<in> set (run (Grp 1 (Plus AnyChar)) 0 s Map.empty)"
      and a: "(e, s', c') \<in> set (run (Cat (Lit ''-'') (Cat (Grp 2 ?V) Eol)) p1 s1 c1)"
    by blast
  from run_Grp_text [OF 1] obtain np c0
    where np: "s = np @ s1" "(p1, s1, c0) \<in> set (run (Plus AnyChar) 0 s Map.empty)"
      "c1 = c0(1 \<mapsto> np)"
    by blast
  from run_Plus_result [OF np(2)] obtain u
    where u: "u \<noteq> []" "s = u @ s1" "\<forall>y\<in>set u. cc AnyChar y"
    by blast
  from np(1) u(2) have "u = np" by simp
  with u have np2: "np \<noteq> []" "CHR 0x0A \<notin> set np" by (auto simp: cc.simps)
  from run_Cat_result [OF a] obtain p2 s2 c2
    where 2: "(p2, s2, c2) \<in> set (run (Lit ''-'') p1 s1 c1)"
      and b: "(e, s', c') \<in> set (run (Cat (Grp 2 ?V) Eol) p2 s2 c2)"
    by blast
  from run_Lit_result [OF 2] have l2: "s1 = ''-'' @ s2" "c2 = c1" by simp_all
  from run_Cat_result [OF b] obtain p3 s3 c3
    where 3: "(p3, s3, c3) \<in> set (run (Grp 2 ?V) p2 s2 c2)"
      and d: "(e, s', c') \<in> set (run Eol p3 s3 c3)"
    by blast
  from run_Eol_result [OF d] have eol: "s3 = []" "c' = c3" by simp_all
  from run_Grp_text [OF 3] obtain v c4
    where v: "s2 = v @ s3" "(p3, s3, c4) \<in> set (run ?V p2 s2 c2)" "c3 = c4(2 \<mapsto> v)"
    by blast
  from rpm_version_result [OF v(2)] obtain x dist arch
    where r: "s2 = x @ ''.'' @ dist @ ''.'' @ arch @ s3" "x \<noteq> []" "CHR ''-'' \<notin> set x"
      "dist = ''azl3'' \<or> dist = ''cm2''" "arch = ''x86_64'' \<or> arch = ''noarch''"
      "c4 1 = c2 1"
    by blast
  from np l2 r(1) eol have "s = np @ ''-'' @ x @ ''.'' @ dist @ ''.'' @ arch" by simp
  moreover from eol v r np l2 have "c' 1 = Some np" by simp
  moreover from eol v r have "c' 2 = Some (x @ ''.'' @ dist @ ''.'' @ arch)" by simp
  ultimately show ?thesis using np2 r(2-5) by blast
qed

lemma LastIndex_append:
  "c \<notin> set b \<Longrightarrow> LastIndex (a @ c # b) c = Some (length a)"
proof (induction a)
  case Nil
  have "c \<notin> set b \<Longrightarrow> LastIndex b c = None" for b
    by (induction b) auto
  with Nil show ?case by simp
next
  case (Cons x a)
  then show ?case by simp
qed

text \<open>
  Results compose, and a repetition over a text that lies in its class offers every
  split of the text, the longest first.
\<close>

lemma run_Cat_intro:
  "(p1, s1, c1) \<in> set (run a p s c) \<Longrightarrow> q \<in> set (run b p1 s1 c1)
   \<Longrightarrow> q \<in> set (run (Cat a b) p s c)"
  by (force simp: run.simps)

lemma run_Lit_intro: "(p + length t, s', c) \<in> set (run (Lit t) p (t @ s') c)"
  by (simp add: run.simps)

lemma run_One_intro: "cc k x \<Longrightarrow> (Suc p, s', c) \<in> set (run (One k) p (x # s') c)"
  by (simp add: run.simps)

lemma run_Eol_intro: "(p, [], c) \<in> set (run Eol p [] c)"
  by (simp add: run.simps)

lemma run_Grp_intro:
  "(p', s', c1) \<in> set (run a p s c)
   \<Longrightarrow> (p', s', c1(n \<mapsto> take (p' - p) s)) \<in> set (run (Grp n a) p s c)"
  by (force simp: run.simps)

lemma star_self: "(p, s) \<in> set (star k p s)"
  by (cases s) auto

lemma star_intro: "\<forall>x\<in>set u. cc k x \<Longrightarrow> (p + length u, s') \<in> set (star k p (u @ s'))"
proof (induction u arbitrary: p)
  case Nil
  show ?case by (simp add: star_self)
next
  case (Cons x u)
  from Cons.prems have "\<forall>x\<in>set u. cc k x" by simp
  from Cons.IH [OF this, of "Suc p"] Cons.prems show ?case by simp
qed

lemma run_Star_intro:
  "\<forall>x\<in>set u. cc k x \<Longrightarrow> (p + length u, s', c) \<in> set (run (Star k) p (u @ s') c)"
  using star_intro [of u k p s'] by (force simp: run.simps)

lemma star_all:
  "\<forall>x\<in>set s. cc k x \<Longrightarrow> star k p s = map (\<lambda>n. (p + n, drop n s)) (rev [0..<Suc (length s)])"
proof (induction s arbitrary: p)
  case Nil
  show ?case by simp
next
  case (Cons x xs)
  have A: "[0..<Suc (Suc (length xs))] = 0 # map Suc [0..<Suc (length xs)]"
    by (simp only: map_Suc_upt upt_conv_Cons [of 0 "Suc (Suc (length xs))"])
  have B: "map (\<lambda>n. (p + n, drop n (x # xs))) (rev [0..<Suc (Suc (length xs))])
           = map (\<lambda>n. (Suc p + n, drop n xs)) (rev [0..<Suc (length xs)]) @ [(p, x # xs)]"
    by (simp add: A rev_map comp_def del: upt_Suc)
  from Cons.prems have "\<forall>x\<in>set xs. cc k x" by simp
  from Cons.IH [OF this, of "Suc p"] Cons.prems
  have "star k p (x # xs)
        = map (\<lambda>n. (Suc p + n, drop n xs)) (rev [0..<Suc (length xs)]) @ [(p, x # xs)]"
    by (simp del: upt_Suc)
  with B show ?case by (simp del: upt_Suc)
qed

lemma plus_all:
  assumes "\<forall>x\<in>set s. cc k x"
  shows "run (Plus k) p s c = map (\<lambda>n. (p + n, drop n s, c)) (rev [1..<Suc (length s)])"
proof (cases s)
  case Nil
  then show ?thesis by (simp add: run.simps)
next
  case (Cons x xs)
  have A: "[Suc 0..<Suc (Suc (length xs))] = map Suc [0..<Suc (length xs)]"
    by (simp only: map_Suc_upt)
  have B: "map (\<lambda>n. (p + n, drop n (x # xs), c)) (rev [1..<Suc (Suc (length xs))])
           = map (\<lambda>n. (Suc p + n, drop n xs, c)) (rev [0..<Suc (length xs)])"
    by (simp add: A rev_map comp_def del: upt_Suc)
  from Cons assms have "\<forall>x\<in>set xs. cc k x" "cc k x" by simp_all
  with Cons have "run (Plus k) p s c
                  = map (\<lambda>n. (Suc p + n, drop n xs, c)) (rev [0..<Suc (length xs)])"
    by (simp add: run.simps star_all comp_def del: upt_Suc)
  with B Cons show ?thesis by (simp del: upt_Suc)
qed

text \<open>
  The name-version pattern on a name part: its matches are the boundaries of the name
  part, and the first of them in the order of preference is the last boundary.
\<close>

lemma nv_tail_result:
  assumes "(e, s', c') \<in> set (run (Cat (Lit ''-'')
              (Cat (Grp 2 (cat [One Digit, Star AnyChar])) Eol)) p t c)"
  shows "\<exists>d t'. t = CHR ''-'' # d # t' \<and> cc Digit d \<and> s' = []
           \<and> c' = c(2 \<mapsto> d # t')"
proof -
  from run_Cat_result [OF assms] obtain p1 s1 c1
    where 1: "(p1, s1, c1) \<in> set (run (Lit ''-'') p t c)"
      and a: "(e, s', c') \<in> set (run (Cat (Grp 2 (cat [One Digit, Star AnyChar])) Eol) p1 s1 c1)"
    by blast
  from run_Lit_result [OF 1] have l: "t = ''-'' @ s1" "c1 = c" by simp_all
  from run_Cat_result [OF a] obtain p2 s2 c2
    where 2: "(p2, s2, c2) \<in> set (run (Grp 2 (cat [One Digit, Star AnyChar])) p1 s1 c1)"
      and b: "(e, s', c') \<in> set (run Eol p2 s2 c2)"
    by blast
  from run_Eol_result [OF b] have eol: "s2 = []" "s' = []" "c' = c2" by simp_all
  from run_Grp_text [OF 2] obtain v c3
    where v: "s1 = v @ s2" "(p2, s2, c3) \<in> set (run (Cat (One Digit) (Star AnyChar)) p1 s1 c1)"
      "c2 = c3(2 \<mapsto> v)"
    by auto
  from run_Cat_result [OF v(2)] obtain p4 s4 c4
    where 4: "(p4, s4, c4) \<in> set (run (One Digit) p1 s1 c1)"
      and d: "(p2, s2, c3) \<in> set (run (Star AnyChar) p4 s4 c4)"
    by blast
  from run_One_result [OF 4] obtain x where x: "s1 = x # s4" "cc Digit x" "c4 = c1" by blast
  from run_Star_result [OF d] have "c3 = c4" by blast
  with l eol v x have "t = CHR ''-'' # x # s4 \<and> cc Digit x \<and> s' = []
      \<and> c' = c(2 \<mapsto> x # s4)"
    by simp
  then show ?thesis by blast
qed

lemma nv_tail_intro:
  assumes "cc Digit d" "CHR 0x0A \<notin> set t'"
  shows "run (Cat (Lit ''-'') (Cat (Grp 2 (cat [One Digit, Star AnyChar])) Eol))
           p (CHR ''-'' # d # t') c \<noteq> []"
proof -
  have 1: "(p + length ''-'', d # t', c) \<in> set (run (Lit ''-'') p (''-'' @ d # t') c)"
    by (rule run_Lit_intro)
  from assms(1) have 2: "(Suc (p + length ''-''), t', c)
                          \<in> set (run (One Digit) (p + length ''-'') (d # t') c)"
    by (rule run_One_intro)
  from assms(2) have "\<forall>x\<in>set t'. cc AnyChar x" by (auto simp: cc.simps)
  from run_Star_intro [OF this, of "Suc (p + length ''-'')" "[]" c]
  have 3: "(Suc (p + length ''-'') + length t', [], c)
            \<in> set (run (Star AnyChar) (Suc (p + length ''-'')) t' c)"
    by simp
  from run_Cat_intro [OF 2 3]
  have "(Suc (p + length ''-'') + length t', [], c)
          \<in> set (run (cat [One Digit, Star AnyChar]) (p + length ''-'') (d # t') c)"
    by simp
  from run_Grp_intro [OF this, of 2] obtain c2 q
    where 4: "(q, [], c2) \<in> set (run (Grp 2 (cat [One Digit, Star AnyChar]))
                                   (p + length ''-'') (d # t') c)"
    by blast
  have "(q, [], c2) \<in> set (run Eol q [] c2)" by (rule run_Eol_intro)
  from run_Cat_intro [OF 1 run_Cat_intro [OF 4 this]] show ?thesis by auto
qed

lemma nv_unfold:
  assumes "CHR 0x0A \<notin> set s"
  shows "run (Cat (Grp 1 (Plus AnyChar)) r) 0 s c
         = concat (map (\<lambda>n. run r n (drop n s) (c(1 \<mapsto> take n s))) (rev [1..<Suc (length s)]))"
proof -
  from assms have "\<forall>x\<in>set s. cc AnyChar x" by (auto simp: cc.simps)
  from plus_all [OF this, of 0 c]
  have "run (Grp 1 (Plus AnyChar)) 0 s c
        = map (\<lambda>n. (n, drop n s, c(1 \<mapsto> take n s))) (rev [1..<Suc (length s)])"
    by (simp add: run.simps(9) comp_def del: upt_Suc)
  then show ?thesis
    by (simp add: run.simps(7) comp_def del: upt_Suc)
qed

lemma sorted_le_last: "sorted xs \<Longrightarrow> (n::nat) \<in> set xs \<Longrightarrow> n \<le> last xs"
  by (induction xs) auto

lemma boundary_le_last:
  assumes "n \<in> set (versionBoundaries s)"
  shows "n \<le> last (versionBoundaries s)"
proof -
  have "sorted (versionBoundaries s)"
    unfolding versionBoundaries_def by (rule sorted_wrt_filter) simp
  then show ?thesis using assms by (rule sorted_le_last)
qed

lemma boundary_iff:
  "n \<in> set (versionBoundaries s)
   \<longleftrightarrow> (\<exists>d t'. drop n s = CHR ''-'' # d # t' \<and> cc Digit d \<and> 1 \<le> n)"
proof
  assume "n \<in> set (versionBoundaries s)"
  then have n: "1 \<le> n" "n < length s - 1" "s ! n = CHR ''-''" "cc Digit (s ! Suc n)"
    by (simp_all add: versionBoundaries_def)
  then have len: "n < length s" "Suc n < length s" by simp_all
  then have "drop n s = s ! n # s ! Suc n # drop (Suc (Suc n)) s"
    by (simp add: Cons_nth_drop_Suc)
  with n show "\<exists>d t'. drop n s = CHR ''-'' # d # t' \<and> cc Digit d \<and> 1 \<le> n"
    by simp
next
  assume "\<exists>d t'. drop n s = CHR ''-'' # d # t' \<and> cc Digit d \<and> 1 \<le> n"
  then obtain d t' where d: "drop n s = CHR ''-'' # d # t'" "cc Digit d" "1 \<le> n"
    by blast
  from d(1) have "length (drop n s) = Suc (Suc (length t'))" by simp
  then have len: "Suc n < length s" by simp
  from d(1) len have "s ! n = CHR ''-''"
    by (metis Suc_lessD hd_drop_conv_nth list.sel(1))
  moreover from d(1) len have "s ! Suc n = d"
    by (metis Cons_nth_drop_Suc Suc_lessD list.inject)
  ultimately show "n \<in> set (versionBoundaries s)"
    using d(2,3) len by (auto simp: versionBoundaries_def)
qed

lemma FindStringSubmatch_anchored:
  "FindStringSubmatch (Cat Bol r) s =
     (case run r 0 s Map.empty of [] \<Rightarrow> []
      | (e, _, c) # _ \<Rightarrow>
          take e s # map (\<lambda>i. case c i of None \<Rightarrow> [] | Some g \<Rightarrow> g) [1..<Suc (ngroups r)])"
  by (simp add: FindStringSubmatch_def search_anchored split: list.splits)

lemma MatchString_anchored: "MatchString (Cat Bol r) s = (run r 0 s Map.empty \<noteq> [])"
  by (simp add: MatchString_def search_anchored split: list.splits)

lemma concat_map_skip:
  "\<forall>x\<in>set xs. f x = [] \<Longrightarrow> concat (map f (xs @ y # ys)) = f y @ concat (map f ys)"
  by (induction xs) auto

lemma nv_candidate:
  assumes "n \<in> set [1..<Suc (length s)]"
    and "run (Cat (Lit ''-'') (Cat (Grp 2 (cat [One Digit, Star AnyChar])) Eol))
           n (drop n s) c \<noteq> []"
  shows "n \<in> set (versionBoundaries s)"
proof -
  from assms(2) obtain e s' c'
    where "(e, s', c') \<in> set (run (Cat (Lit ''-'')
             (Cat (Grp 2 (cat [One Digit, Star AnyChar])) Eol)) n (drop n s) c)"
    by (cases "run (Cat (Lit ''-'') (Cat (Grp 2 (cat [One Digit, Star AnyChar])) Eol))
                 n (drop n s) c") auto
  from nv_tail_result [OF this] obtain d t'
    where "drop n s = CHR ''-'' # d # t'" "cc Digit d" by blast
  moreover from assms(1) have "1 \<le> n" by (simp del: upt_Suc)
  ultimately show ?thesis using boundary_iff [of n s] by blast
qed

lemma nv_run_none:
  assumes "CHR 0x0A \<notin> set s" "versionBoundaries s = []"
  shows "run (Cat (Grp 1 (Plus AnyChar))
           (Cat (Lit ''-'') (Cat (Grp 2 (cat [One Digit, Star AnyChar])) Eol))) 0 s Map.empty = []"
proof -
  let ?r = "Cat (Lit ''-'') (Cat (Grp 2 (cat [One Digit, Star AnyChar])) Eol)"
  have "run ?r n (drop n s) c = []" if "n \<in> set [1..<Suc (length s)]" for n c
    using nv_candidate [OF that, of c] assms(2) by auto
  then show ?thesis
    unfolding nv_unfold [OF assms(1)] by (simp del: upt_Suc)
qed

lemma nv_run_first:
  assumes "CHR 0x0A \<notin> set s" "versionBoundaries s \<noteq> []"
  shows "\<exists>e s' c' rest.
           run (Cat (Grp 1 (Plus AnyChar))
             (Cat (Lit ''-'') (Cat (Grp 2 (cat [One Digit, Star AnyChar])) Eol))) 0 s Map.empty
             = (e, s', c') # rest
           \<and> c' 1 = Some (take (last (versionBoundaries s)) s)
           \<and> c' 2 = Some (drop (Suc (last (versionBoundaries s))) s)"
proof -
  let ?r = "Cat (Lit ''-'') (Cat (Grp 2 (cat [One Digit, Star AnyChar])) Eol)"
  let ?i = "last (versionBoundaries s)"
  let ?f = "\<lambda>n. run ?r n (drop n s) (Map.empty(1 \<mapsto> take n s))"
  from assms(2) have mem: "?i \<in> set (versionBoundaries s)" by simp
  then have i: "1 \<le> ?i" "?i < length s"
    by (auto simp: versionBoundaries_def)
  from mem boundary_iff [of ?i s] obtain d t'
    where d: "drop ?i s = CHR ''-'' # d # t'" "cc Digit d" by blast
  have "set t' \<subseteq> set (drop ?i s)" using d(1) by auto
  also have "\<dots> \<subseteq> set s" by (rule set_drop_subset)
  finally have "CHR 0x0A \<notin> set t'" using assms(1) by auto
  from nv_tail_intro [OF d(2) this, of ?i "Map.empty(1 \<mapsto> take ?i s)"] d(1)
  have "?f ?i \<noteq> []" by simp
  then obtain q rest0 where q: "?f ?i = q # rest0" by (cases "?f ?i") auto
  obtain e s' c' where q3: "q = (e, s', c')" by (cases q) auto
  with q have "(e, s', c') \<in> set (?f ?i)" by simp
  from nv_tail_result [OF this] d(1)
  have c': "c' = (Map.empty(1 \<mapsto> take ?i s))(2 \<mapsto> d # t')" by simp
  from d(1) have "drop (Suc ?i) s = d # t'"
    by (metis drop_Suc list.sel(3) tl_drop)
  with c' have caps: "c' 1 = Some (take ?i s)" "c' 2 = Some (drop (Suc ?i) s)"
    by simp_all
  from i have "[1..<?i + (Suc (length s) - ?i)] = [1..<?i] @ [?i..<?i + (Suc (length s) - ?i)]"
    by (intro upt_add_eq_append)
  moreover from i have "?i + (Suc (length s) - ?i) = Suc (length s)" by simp
  moreover from i have "[?i..<Suc (length s)] = ?i # [Suc ?i..<Suc (length s)]"
    by (intro upt_conv_Cons) simp
  ultimately have "[1..<Suc (length s)] = [1..<?i] @ ?i # [Suc ?i..<Suc (length s)]"
    by simp
  then have split: "rev [1..<Suc (length s)] = rev [Suc ?i..<Suc (length s)] @ ?i # rev [1..<?i]"
    by (simp del: upt_Suc)
  have "?f n = []" if "n \<in> set (rev [Suc ?i..<Suc (length s)])" for n
  proof (rule ccontr)
    assume ne: "?f n \<noteq> []"
    from that have "n \<in> set [1..<Suc (length s)]" by auto
    from nv_candidate [OF this ne] have "n \<le> ?i" by (rule boundary_le_last)
    with that show False by simp
  qed
  then have "concat (map ?f (rev [1..<Suc (length s)])) = ?f ?i @ concat (map ?f (rev [1..<?i]))"
    unfolding split by (intro concat_map_skip) blast
  with q q3 have "run (Cat (Grp 1 (Plus AnyChar)) ?r) 0 s Map.empty
                  = (e, s', c') # rest0 @ concat (map ?f (rev [1..<?i]))"
    unfolding nv_unfold [OF assms(1)] by simp
  with caps show ?thesis by blast
qed

lemma nameVersion_submatch:
  assumes "CHR 0x0A \<notin> set np"
  shows "(versionBoundaries np = [] \<longrightarrow> FindStringSubmatch nameVersionRpm np = [])
       \<and> (versionBoundaries np \<noteq> [] \<longrightarrow>
            length (FindStringSubmatch nameVersionRpm np) = 3
            \<and> FindStringSubmatch nameVersionRpm np ! 1 = take (last (versionBoundaries np)) np
            \<and> FindStringSubmatch nameVersionRpm np ! 2
                = drop (Suc (last (versionBoundaries np))) np)"
proof -
  let ?r = "Cat (Grp 1 (Plus AnyChar))
             (Cat (Lit ''-'') (Cat (Grp 2 (cat [One Digit, Star AnyChar])) Eol))"
  have nv: "nameVersionRpm = Cat Bol ?r" by (simp add: nameVersionRpm_def)
  have g: "[1..<Suc (ngroups ?r)] = [1, 2]" by (simp add: upt_rec)
  show ?thesis
  proof (cases "versionBoundaries np = []")
    case True
    with nv_run_none [OF assms] show ?thesis
      by (simp add: nv FindStringSubmatch_anchored)
  next
    case False
    from nv_run_first [OF assms False] obtain e s' c' rest
      where "run ?r 0 np Map.empty = (e, s', c') # rest"
        "c' 1 = Some (take (last (versionBoundaries np)) np)"
        "c' 2 = Some (drop (Suc (last (versionBoundaries np))) np)"
      by blast
    with False show ?thesis
      unfolding nv FindStringSubmatch_anchored g by simp
  qed
qed

lemma rpm_submatch:
  assumes "isRPMPackageFormat line"
  shows "\<exists>np x dist arch. line = np @ ''-'' @ x @ ''.'' @ dist @ ''.'' @ arch
           \<and> np \<noteq> [] \<and> CHR 0x0A \<notin> set np \<and> x \<noteq> [] \<and> CHR ''-'' \<notin> set x
           \<and> (dist = ''azl3'' \<or> dist = ''cm2'') \<and> (arch = ''x86_64'' \<or> arch = ''noarch'')
           \<and> length (FindStringSubmatch rpmRegex line) = 5
           \<and> FindStringSubmatch rpmRegex line ! 1 = np
           \<and> FindStringSubmatch rpmRegex line ! 2 = x @ ''.'' @ dist @ ''.'' @ arch"
proof -
  let ?r = "Cat (Grp 1 (Plus AnyChar)) (Cat (Lit ''-'')
              (Cat (Grp 2 (cat [Plus (NotChar CHR ''-''), Lit ''.'',
                      Grp 3 (Alt (Lit ''azl3'') (Lit ''cm2'')), Lit ''.'',
                      Grp 4 (Alt (Lit ''x86_64'') (Lit ''noarch''))])) Eol))"
  have rpm: "rpmRegex = Cat Bol ?r" by (simp add: rpmRegex_def)
  have g: "[1..<Suc (ngroups ?r)] = [1, 2, 3, 4]" by (simp add: upt_rec)
  from assms have "run ?r 0 line Map.empty \<noteq> []"
    by (simp add: isRPMPackageFormat_def rpm MatchString_anchored)
  then obtain e s' c rest where r: "run ?r 0 line Map.empty = (e, s', c) # rest"
    by (cases "run ?r 0 line Map.empty") auto
  then have "(e, s', c) \<in> set (run ?r 0 line Map.empty)" by simp
  from rpm_result [OF this] obtain np x dist arch
    where shape: "line = np @ ''-'' @ x @ ''.'' @ dist @ ''.'' @ arch"
      "np \<noteq> []" "CHR 0x0A \<notin> set np" "x \<noteq> []" "CHR ''-'' \<notin> set x"
      "dist = ''azl3'' \<or> dist = ''cm2''" "arch = ''x86_64'' \<or> arch = ''noarch''"
      and caps: "c 1 = Some np" "c 2 = Some (x @ ''.'' @ dist @ ''.'' @ arch)"
    by blast
  from r caps have "length (FindStringSubmatch rpmRegex line) = 5"
    "FindStringSubmatch rpmRegex line ! 1 = np"
    "FindStringSubmatch rpmRegex line ! 2 = x @ ''.'' @ dist @ ''.'' @ arch"
    unfolding rpm FindStringSubmatch_anchored g by simp_all
  with shape show ?thesis by blast
qed

text \<open>
  C6, as the code has it. Take a line that matches the RPM pattern and does not match the
  APT pattern, which is tried first. The line is a name part, a hyphen, and a version
  part without hyphen that ends in \<open>.azl3\<close> or \<open>.cm2\<close> and then \<open>.x86_64\<close> or
  \<open>.noarch\<close>. The release version is the version part without the architecture. The
  name part is split at its last hyphen that has a character before it and a digit after
  it: the text before is the name, and the version is the text after, a hyphen and the
  release version. Without such a hyphen the name is the whole name part and the version
  is the release version.
\<close>

theorem rpm_line_extracted:
  assumes "isRPMPackageFormat line" "\<not> isUbuntuPackageFormat line"
  shows "\<exists>namePart x dist arch.
           line = namePart @ ''-'' @ x @ ''.'' @ dist @ ''.'' @ arch
           \<and> namePart \<noteq> [] \<and> x \<noteq> [] \<and> CHR ''-'' \<notin> set x
           \<and> (dist = ''azl3'' \<or> dist = ''cm2'') \<and> (arch = ''x86_64'' \<or> arch = ''noarch'')
           \<and> parsePackageLine line =
               Some (case splitNameVersion namePart of
                       None \<Rightarrow> \<lparr>Name = namePart, Version = x @ ''.'' @ dist\<rparr>
                     | Some (name, upstream) \<Rightarrow>
                         \<lparr>Name = name, Version = upstream @ ''-'' @ x @ ''.'' @ dist\<rparr>)"
proof -
  from rpm_submatch [OF assms(1)] obtain np x dist arch
    where shape: "line = np @ ''-'' @ x @ ''.'' @ dist @ ''.'' @ arch"
      "np \<noteq> []" "CHR 0x0A \<notin> set np" "x \<noteq> []" "CHR ''-'' \<notin> set x"
      "dist = ''azl3'' \<or> dist = ''cm2''" "arch = ''x86_64'' \<or> arch = ''noarch''"
      and m: "length (FindStringSubmatch rpmRegex line) = 5"
      "FindStringSubmatch rpmRegex line ! 1 = np"
      "FindStringSubmatch rpmRegex line ! 2 = x @ ''.'' @ dist @ ''.'' @ arch"
    by blast
  let ?rel = "x @ ''.'' @ dist"
  from shape(2) shape(1) have ne: "line \<noteq> []" by simp
  from assms(2) have "length (FindStringSubmatch ubuntuRegex line) = 0"
    by (simp add: isUbuntuPackageFormat_def FindStringSubmatch_length)
  then have u: "FindStringSubmatch ubuntuRegex line = []" by simp
  from shape(7) have "CHR ''.'' \<notin> set arch" by auto
  from LastIndex_append [OF this, of ?rel]
  have li: "LastIndex (x @ ''.'' @ dist @ ''.'' @ arch) CHR ''.'' = Some (length ?rel)"
    by simp
  have "parsePackageLine line =
          Some (case splitNameVersion np of
                  None \<Rightarrow> \<lparr>Name = np, Version = ?rel\<rparr>
                | Some (name, upstream) \<Rightarrow> \<lparr>Name = name, Version = upstream @ ''-'' @ ?rel\<rparr>)"
  proof (cases "versionBoundaries np = []")
    case True
    with nameVersion_submatch [OF shape(3)]
    have "FindStringSubmatch nameVersionRpm np = []" by simp
    with True ne u m li shape(7) show ?thesis
      by (simp add: parsePackageLine_def splitNameVersion_def Let_def)
  next
    case False
    with nameVersion_submatch [OF shape(3)]
    have "length (FindStringSubmatch nameVersionRpm np) = 3"
      "FindStringSubmatch nameVersionRpm np ! 1 = take (last (versionBoundaries np)) np"
      "FindStringSubmatch nameVersionRpm np ! 2 = drop (Suc (last (versionBoundaries np))) np"
      by simp_all
    with False ne u m li shape(7) show ?thesis
      by (simp add: parsePackageLine_def splitNameVersion_def Let_def)
  qed
  with shape show ?thesis by blast
qed

theorem rpm_line_extracted_witness:
  "isRPMPackageFormat ''python3-cryptography-42.0.5-3.azl3.x86_64''
   \<and> \<not> isUbuntuPackageFormat ''python3-cryptography-42.0.5-3.azl3.x86_64''
   \<and> splitNameVersion ''python3-cryptography-42.0.5'' = Some (''python3-cryptography'', ''42.0.5'')
   \<and> parsePackageLine ''python3-cryptography-42.0.5-3.azl3.x86_64''
       = Some \<lparr>Name = ''python3-cryptography'', Version = ''42.0.5-3.azl3''\<rparr>
   \<and> (\<exists>namePart x dist arch.
         ''python3-cryptography-42.0.5-3.azl3.x86_64''
           = namePart @ ''-'' @ x @ ''.'' @ dist @ ''.'' @ arch
         \<and> parsePackageLine ''python3-cryptography-42.0.5-3.azl3.x86_64'' =
             Some (case splitNameVersion namePart of
                     None \<Rightarrow> \<lparr>Name = namePart, Version = x @ ''.'' @ dist\<rparr>
                   | Some (name, upstream) \<Rightarrow>
                       \<lparr>Name = name, Version = upstream @ ''-'' @ x @ ''.'' @ dist\<rparr>))"
proof -
  have r: "isRPMPackageFormat ''python3-cryptography-42.0.5-3.azl3.x86_64''"
    by code_simp
  have u: "\<not> isUbuntuPackageFormat ''python3-cryptography-42.0.5-3.azl3.x86_64''"
    by code_simp
  have s: "splitNameVersion ''python3-cryptography-42.0.5''
           = Some (''python3-cryptography'', ''42.0.5'')"
    by code_simp
  have p: "parsePackageLine ''python3-cryptography-42.0.5-3.azl3.x86_64''
           = Some \<lparr>Name = ''python3-cryptography'', Version = ''42.0.5-3.azl3''\<rparr>"
    by code_simp
  from rpm_line_extracted [OF r u] r u s p show ?thesis by blast
qed

text \<open>
  C6 as stated fails on two kinds of lines that match the RPM pattern. In
  \<open>-1-2.azl3.x86_64\<close> the name part is \<open>-1\<close>: its only hyphen is followed by a digit
  but has nothing before it, and the line yields the name \<open>-1\<close> and the version
  \<open>2.azl3\<close>, not an empty name and the version \<open>1-2.azl3\<close>. The line
  \<open>a/b,now 1 x [y]-1.azl3.x86_64\<close> also matches the APT pattern, which wins.
\<close>

theorem rpm_line_counterexample:
  "isRPMPackageFormat ''-1-2.azl3.x86_64''
   \<and> FindStringSubmatch rpmRegex ''-1-2.azl3.x86_64'' ! 1 = ''-1''
   \<and> ''-1'' ! 0 = CHR ''-'' \<and> cc Digit (''-1'' ! 1)
   \<and> parsePackageLine ''-1-2.azl3.x86_64'' = Some \<lparr>Name = ''-1'', Version = ''2.azl3''\<rparr>
   \<and> isRPMPackageFormat ''a/b,now 1 x [y]-1.azl3.x86_64''
   \<and> FindStringSubmatch rpmRegex ''a/b,now 1 x [y]-1.azl3.x86_64'' ! 1 = ''a/b,now 1 x [y]''
   \<and> parsePackageLine ''a/b,now 1 x [y]-1.azl3.x86_64'' = Some \<lparr>Name = ''a'', Version = ''1''\<rparr>"
  by code_simp

end
